theory Spec2Isabelle
  imports Main "HOL-Library.Multiset"
begin

section \<open>Python values\<close>

text \<open>
  The spider \<open>CarDetailsSpider\<close> (src/sawari/spiders/car_details_spider.py) keeps, for
  every car, one Python dict \<open>car_data\<close> that travels in the \<open>meta\<close> of every request
  issued for that car. Keys of that dict are strings, or \<open>None\<close> when a tab anchor has
  no \<open>id\<close> attribute (\<open>tab.css("::attr(id)").get()\<close>).
\<close>

datatype pykey = KNone | KStr string

text \<open>
  Values are JSON-like data plus the \<open>set\<close> held under \<open>_pending_tabs\<close>. A dict is a
  map: two dicts are equal, as with Python's \<open>==\<close>, when they hold the same values
  under the same keys.
\<close>

datatype pyval =
    PNone
  | PBool bool
  | PInt int
  | PStr string
  | PList "pyval list"
  | PDict "pykey \<Rightarrow> pyval option"
  | PSet "pykey set"

datatype pyerror = KeyError | AttributeError | TypeError | ValueError

type_synonym pydict = "pykey \<Rightarrow> pyval option"

text \<open>Python truthiness, as used by \<open>if not car_data["_pending_tabs"]\<close> and \<open>if final_data\<close>.\<close>

fun truthy :: "pyval \<Rightarrow> bool" where
  "truthy PNone = False"
| "truthy (PBool b) = b"
| "truthy (PInt i) = (i \<noteq> 0)"
| "truthy (PStr s) = (s \<noteq> [])"
| "truthy (PList xs) = (xs \<noteq> [])"
| "truthy (PDict m) = (m \<noteq> Map.empty)"
| "truthy (PSet S) = (S \<noteq> {})"

text \<open>\<open>str(key)\<close>, as the f-strings of the log messages render a key.\<close>

fun str_key :: "pykey \<Rightarrow> string" where
  "str_key KNone = ''None''"
| "str_key (KStr s) = s"

text \<open>\<open>s.replace(old, new)\<close>: every non-overlapping occurrence, left to right.\<close>

function replace_ne :: "string \<Rightarrow> string \<Rightarrow> string \<Rightarrow> string" where
  "replace_ne old new [] = []"
| "replace_ne old new (c # cs) =
     (if old \<noteq> [] \<and> take (length old) (c # cs) = old
      then new @ replace_ne old new (drop (length old) (c # cs))
      else c # replace_ne old new cs)"
  by pat_completeness auto
termination
  by (relation "measure (\<lambda>(old, new, s). length s)") auto

definition py_replace :: "string \<Rightarrow> string \<Rightarrow> string \<Rightarrow> string" where
  "py_replace s old new =
     (if old = [] then new @ concat (map (\<lambda>c. c # new) s) else replace_ne old new s)"

text \<open>\<open>sub in s\<close> on strings.\<close>

fun contains :: "string \<Rightarrow> string \<Rightarrow> bool" where
  "contains sub [] = (sub = [])"
| "contains sub (c # cs) = (take (length sub) (c # cs) = sub \<or> contains sub cs)"

section \<open>Requests, responses and what a callback produces\<close>

text \<open>
  The callbacks a request can name. \<open>parse_first_page\<close> is the callback of the first
  request of a car; the others are the tab parsers of \<open>tab_mapping\<close>.
\<close>

datatype callback =
    parse_first_page_cb
  | parse_specifications
  | parse_price
  | parse_variants
  | parse_colours
  | parse_reviews
  | parse_gallery
  | parse_mileage
  | parse_unknown_cb

text \<open>
  A \<open>scrapy.Request\<close>. Every request of the spider carries \<open>car_data\<close> in its meta and
  \<open>handle_error\<close> as errback; \<open>meta_data_key\<close> is \<open>None\<close> when the meta has no entry
  \<open>"data_key"\<close> (the first request), and \<open>Some k\<close> when \<open>meta["data_key"] = k\<close>.
\<close>

record request =
  url :: string
  callback :: callback
  meta_data_key :: "pykey option"

text \<open>
  The constructor \<open>scrapy.Request(url, ...)\<close>. It stores the URL escaped; the escaping
  (\<open>safe_url_string\<close>, then \<open>escape_ajax\<close>) is library code and is the parameter
  \<open>esc\<close> of everything that builds a request. It raises \<open>ValueError\<close> when the stored
  URL has no \<open>://\<close> and starts with neither \<open>about:\<close> nor \<open>data:\<close>.
\<close>

definition has_scheme :: "string \<Rightarrow> bool" where
  "has_scheme u = (contains ''://'' u \<or> take 6 u = ''about:'' \<or> take 5 u = ''data:'')"

definition scrapy_Request ::
  "(string \<Rightarrow> string) \<Rightarrow> string \<Rightarrow> callback \<Rightarrow> pykey option \<Rightarrow> pyerror + request" where
  "scrapy_Request esc u cb key =
     (if has_scheme (esc u) then Inr \<lparr>url = esc u, callback = cb, meta_data_key = key\<rparr>
      else Inl ValueError)"

text \<open>
  What the spider reads from a response: the anchors selected by
  \<open>"ul.flex.gap-9 li a"\<close>, each as its \<open>id\<close> attribute and its joined \<open>href\<close>, and what
  the extraction routine of the request's callback does on this response: the value it
  returns, or the exception it raises (the extraction rules themselves are markup
  scraping and are not modelled; \<open>_extract_mileage_data\<close> for one raises \<open>TypeError\<close> on a
  table row whose fuel cell reads \<open>fuel_tank_capacity\<close>).
\<close>

record response =
  resp_request :: request
  tabs :: "(pykey \<times> string) list"
  extracted :: "pyerror + pyval"

datatype level = WARNING | ERROR

text \<open>
  What running a callback or errback produces besides the mutation of \<open>car_data\<close>:
  the requests and items it yields, the log lines it writes, and the exception that
  ends it, if any.
\<close>

record outcome =
  requests :: "request list"
  items :: "pyval list"
  logged :: "(level \<times> string) list"
  raised :: "pyerror option"

definition nothing :: outcome where
  "nothing = \<lparr>requests = [], items = [], logged = [], raised = None\<rparr>"

abbreviation base_info_key :: pykey where
  "base_info_key \<equiv> KStr ''base_info''"

abbreviation pending_key :: pykey where
  "pending_key \<equiv> KStr ''_pending_tabs''"

section \<open>The spider\<close>

subsection \<open>start_requests\<close>

text \<open>The dict built for each car (lines 23--33).\<close>

definition new_car_data :: "pyval \<Rightarrow> pydict" where
  "new_car_data car =
     [base_info_key \<mapsto> car,
      KStr ''price'' \<mapsto> PNone,
      KStr ''specifications'' \<mapsto> PNone,
      KStr ''variants'' \<mapsto> PNone,
      KStr ''colours'' \<mapsto> PNone,
      KStr ''mileage'' \<mapsto> PNone,
      KStr ''reviews'' \<mapsto> PNone,
      KStr ''gallery'' \<mapsto> PNone,
      pending_key \<mapsto> PSet {}]"

text \<open>
  The body of the loop over the cars of \<open>cars_data.json\<close>: the first request of one
  car, or the exception that \<open>car["detail_url"].replace(...)\<close> or the constructor of the
  request raises.
\<close>

definition start_request :: "(string \<Rightarrow> string) \<Rightarrow> pyval \<Rightarrow> pyerror + (pydict \<times> request)" where
  "start_request esc car =
     (case car of
        PDict m \<Rightarrow>
          (case m (KStr ''detail_url'') of
             None \<Rightarrow> Inl KeyError
           | Some (PStr u) \<Rightarrow>
               (case scrapy_Request esc (py_replace u ''/overview'' ''/price'')
                       parse_first_page_cb None of
                  Inl e \<Rightarrow> Inl e
                | Inr req \<Rightarrow> Inr (new_car_data car, req))
           | Some _ \<Rightarrow> Inl AttributeError)
      | _ \<Rightarrow> Inl TypeError)"

subsection \<open>parse_first_page\<close>

definition tab_mapping :: "pykey \<Rightarrow> (pykey \<times> callback option) option" where
  "tab_mapping = map_of
     [(KStr ''specs'', (KStr ''specifications'', Some parse_specifications)),
      (KStr ''price'', (KStr ''price'', Some parse_price)),
      (KStr ''variants'', (KStr ''variants'', Some parse_variants)),
      (KStr ''colours'', (KStr ''colours'', Some parse_colours)),
      (KStr ''reviews'', (KStr ''reviews'', Some parse_reviews)),
      (KStr ''gallery'', (KStr ''gallery'', Some parse_gallery)),
      (KStr ''mileage'', (KStr ''mileage'', Some parse_mileage)),
      (KStr ''range'', (KStr ''mileage'', Some parse_mileage)),
      (KStr ''model'', (base_info_key, None)),
      (KStr ''compare'', (KStr ''compare'', None))]"

text \<open>\<open>tab_mapping.get(tab_id, (tab_id, self.parse_unknown))\<close>\<close>

definition tab_lookup :: "pykey \<Rightarrow> pykey \<times> callback option" where
  "tab_lookup tab_id =
     (case tab_mapping tab_id of None \<Rightarrow> (tab_id, Some parse_unknown_cb) | Some e \<Rightarrow> e)"

text \<open>\<open>car_data["_pending_tabs"].add(data_key)\<close>\<close>

definition pending_add :: "pydict \<Rightarrow> pykey \<Rightarrow> pyerror + pydict" where
  "pending_add car_data data_key =
     (case car_data pending_key of
        None \<Rightarrow> Inl KeyError
      | Some (PSet S) \<Rightarrow> Inr (car_data(pending_key \<mapsto> PSet (insert data_key S)))
      | Some _ \<Rightarrow> Inl AttributeError)"

text \<open>\<open>car_data["_pending_tabs"].remove(data_key)\<close>: \<open>set.remove\<close> raises on a missing element.\<close>

definition pending_remove :: "pydict \<Rightarrow> pykey \<Rightarrow> pyerror + pydict" where
  "pending_remove car_data data_key =
     (case car_data pending_key of
        None \<Rightarrow> Inl KeyError
      | Some (PSet S) \<Rightarrow>
          (if data_key \<in> S then Inr (car_data(pending_key \<mapsto> PSet (S - {data_key})))
           else Inl KeyError)
      | Some _ \<Rightarrow> Inl AttributeError)"

text \<open>
  \<open>parse_first_page\<close> is a generator. One resumption of it (\<open>next\<close>) runs the loop over
  the tabs (lines 69--90) from the anchor it had reached to the next \<open>yield\<close>: it adds
  the key of that tab to the pending set, builds the request and yields it. The result
  is \<open>car_data\<close>, the anchors not reached yet, and what the resumption produced: one
  request, or nothing when the loop has ended, or the exception that ended the
  generator (then the key of the tab may already be in the pending set).
\<close>

fun parse_first_page_next ::
  "(string \<Rightarrow> string) \<Rightarrow> pydict \<Rightarrow> (pykey \<times> string) list
    \<Rightarrow> pydict \<times> (pykey \<times> string) list \<times> outcome" where
  "parse_first_page_next esc car_data [] = (car_data, [], nothing)"
| "parse_first_page_next esc car_data ((tab_id, tab_url) # rest) =
     (if tab_id \<in> set [KStr ''model'', KStr ''compare'']
      then parse_first_page_next esc car_data rest
      else
        (case tab_lookup tab_id of
           (data_key, None) \<Rightarrow> parse_first_page_next esc car_data rest
         | (data_key, Some parser) \<Rightarrow>
             (case pending_add car_data data_key of
                Inl e \<Rightarrow> (car_data, [], nothing\<lparr>raised := Some e\<rparr>)
              | Inr car_data' \<Rightarrow>
                  (case scrapy_Request esc tab_url parser (Some data_key) of
                     Inl e \<Rightarrow> (car_data', [], nothing\<lparr>raised := Some e\<rparr>)
                   | Inr req \<Rightarrow> (car_data', rest, nothing\<lparr>requests := [req]\<rparr>)))))"

text \<open>
  The generator consumed to its end with nothing else handled in between: all its
  requests, and \<open>car_data\<close> as the last resumption leaves it.
\<close>

fun parse_first_page ::
  "(string \<Rightarrow> string) \<Rightarrow> pydict \<Rightarrow> (pykey \<times> string) list \<Rightarrow> pydict \<times> outcome" where
  "parse_first_page esc car_data [] = (car_data, nothing)"
| "parse_first_page esc car_data ((tab_id, tab_url) # rest) =
     (if tab_id \<in> set [KStr ''model'', KStr ''compare'']
      then parse_first_page esc car_data rest
      else
        (case tab_lookup tab_id of
           (data_key, None) \<Rightarrow> parse_first_page esc car_data rest
         | (data_key, Some parser) \<Rightarrow>
             (case pending_add car_data data_key of
                Inl e \<Rightarrow> (car_data, nothing\<lparr>raised := Some e\<rparr>)
              | Inr car_data' \<Rightarrow>
                  (case scrapy_Request esc tab_url parser (Some data_key) of
                     Inl e \<Rightarrow> (car_data', nothing\<lparr>raised := Some e\<rparr>)
                   | Inr req \<Rightarrow>
                       (case parse_first_page esc car_data' rest of
                          (car_data'', out) \<Rightarrow>
                            (car_data'', out\<lparr>requests := req # requests out\<rparr>))))))"

subsection \<open>finalize_car_data\<close>

text \<open>
  Returns the merged dict, or \<open>None\<close> while tabs are pending. \<open>{**a, **b}\<close> is
  \<open>a ++ b\<close>: on a shared key the value of \<open>b\<close> stands.
\<close>

definition finalize_car_data :: "pydict \<Rightarrow> pyerror + pyval" where
  "finalize_car_data car_data =
     (case car_data pending_key of
        None \<Rightarrow> Inl KeyError
      | Some p \<Rightarrow>
          (if \<not> truthy p then
             (let final_data = car_data(pending_key := None) in
              (case final_data base_info_key of
                 None \<Rightarrow> Inl KeyError
               | Some (PDict base) \<Rightarrow> Inr (PDict ((base ++ final_data)(base_info_key := None)))
               | Some _ \<Rightarrow> Inl TypeError))
           else Inr PNone))"

subsection \<open>process_tab, the tab parsers and handle_error\<close>

text \<open>The tail shared by \<open>process_tab\<close> and \<open>handle_error\<close>: remove, finalize, yield.\<close>

definition remove_and_finalize :: "pydict \<Rightarrow> pykey \<Rightarrow> (level \<times> string) list \<Rightarrow> pydict \<times> outcome" where
  "remove_and_finalize car_data data_key logs =
     (case pending_remove car_data data_key of
        Inl e \<Rightarrow> (car_data, nothing\<lparr>logged := logs, raised := Some e\<rparr>)
      | Inr car_data' \<Rightarrow>
          (case finalize_car_data car_data' of
             Inl e \<Rightarrow> (car_data', nothing\<lparr>logged := logs, raised := Some e\<rparr>)
           | Inr final_data \<Rightarrow>
               (car_data',
                nothing\<lparr>items := (if truthy final_data then [final_data] else []),
                        logged := logs\<rparr>)))"

text \<open>
  \<open>process_tab(response, parser_func)\<close>; \<open>parsed\<close> is what \<open>parser_func(response)\<close> returns
  or raises, and \<open>logs\<close> what the calling parser has logged before. Nothing catches an
  exception of \<open>parser_func\<close>: it ends the callback before anything is stored.
\<close>

definition process_tab ::
  "pydict \<Rightarrow> request \<Rightarrow> pyerror + pyval \<Rightarrow> (level \<times> string) list \<Rightarrow> pydict \<times> outcome" where
  "process_tab car_data req parsed logs =
     (case meta_data_key req of
        None \<Rightarrow> (car_data, nothing\<lparr>logged := logs, raised := Some KeyError\<rparr>)
      | Some data_key \<Rightarrow>
          (case parsed of
             Inl e \<Rightarrow> (car_data, nothing\<lparr>logged := logs, raised := Some e\<rparr>)
           | Inr v \<Rightarrow> remove_and_finalize (car_data(data_key \<mapsto> v)) data_key logs))"

definition unknown_tab_value :: pyval where
  "unknown_tab_value = PDict [KStr ''error'' \<mapsto> PStr ''Unknown tab type'']"

definition parse_unknown :: "pydict \<Rightarrow> response \<Rightarrow> pydict \<times> outcome" where
  "parse_unknown car_data r =
     process_tab car_data (resp_request r) (Inr unknown_tab_value)
       [(WARNING, ''Unknown tab type encountered: '' @ url (resp_request r))]"

text \<open>\<open>parse_price\<close>, \<open>parse_specifications\<close>, ...: \<open>process_tab\<close> with the tab's extractor.\<close>

definition parse_tab :: "pydict \<Rightarrow> response \<Rightarrow> pydict \<times> outcome" where
  "parse_tab car_data r = process_tab car_data (resp_request r) (extracted r) []"

text \<open>The placeholder \<open>{"error": str(failure.value), "url": failure.request.url}\<close>.\<close>

definition error_value :: "string \<Rightarrow> string \<Rightarrow> pyval" where
  "error_value err u = PDict [KStr ''error'' \<mapsto> PStr err, KStr ''url'' \<mapsto> PStr u]"

text \<open>\<open>handle_error(failure)\<close>; \<open>err\<close> is \<open>str(failure.value)\<close>.\<close>

definition handle_error :: "pydict \<Rightarrow> request \<Rightarrow> string \<Rightarrow> pydict \<times> outcome" where
  "handle_error car_data req err =
     (case meta_data_key req of
        None \<Rightarrow> (car_data, nothing\<lparr>raised := Some KeyError\<rparr>)
      | Some data_key \<Rightarrow>
          remove_and_finalize (car_data(data_key \<mapsto> error_value err (url req))) data_key
            [(ERROR, ''Request failed for '' @ str_key data_key @ '': '' @ err)])"

subsection \<open>Delivery of completion events\<close>

text \<open>
  Scrapy hands a response to the callback of its request and a failure of the fetch to
  the errback of its request, which is \<open>handle_error\<close> for every request of this
  spider. An exception raised by a callback is logged by the engine and is not handed
  to the errback; it ends that call only, and later events are still delivered.
  \<open>deliver\<close> on the response of a first request consumes the generator at once.
\<close>

datatype event = Response response | Failure request string

fun deliver :: "(string \<Rightarrow> string) \<Rightarrow> pydict \<Rightarrow> event \<Rightarrow> pydict \<times> outcome" where
  "deliver esc car_data (Response r) =
     (case callback (resp_request r) of
        parse_first_page_cb \<Rightarrow> parse_first_page esc car_data (tabs r)
      | parse_unknown_cb \<Rightarrow> parse_unknown car_data r
      | _ \<Rightarrow> parse_tab car_data r)"
| "deliver esc car_data (Failure req err) = handle_error car_data req err"

text \<open>The events of one car, delivered one after the other on the shared \<open>car_data\<close>.\<close>

fun run :: "(string \<Rightarrow> string) \<Rightarrow> pydict \<Rightarrow> event list \<Rightarrow> pydict \<times> outcome list" where
  "run esc car_data [] = (car_data, [])"
| "run esc car_data (ev # evs) =
     (case deliver esc car_data ev of
        (car_data', out) \<Rightarrow>
          (case run esc car_data' evs of (car_data'', outs) \<Rightarrow> (car_data'', out # outs)))"

definition emitted :: "'s \<times> outcome list \<Rightarrow> pyval list" where
  "emitted res = concat (map items (snd res))"

definition yielded :: "'s \<times> outcome list \<Rightarrow> request list" where
  "yielded res = concat (map requests (snd res))"

subsection \<open>The engine's schedule for one car\<close>

text \<open>
  Once the first page of a car has been fetched, the engine, for that car, either
  resumes the generator of \<open>parse_first_page\<close> to take its next request, or hands a
  completion event to its callback or errback. Nothing in the spider orders the two:
  an answer can be handled between two resumptions of the generator. The state of a
  car is its \<open>car_data\<close> and the anchors the generator has not reached.
\<close>

datatype action = Advance | Deliver event

fun step ::
  "(string \<Rightarrow> string) \<Rightarrow> pydict \<times> (pykey \<times> string) list \<Rightarrow> action
    \<Rightarrow> (pydict \<times> (pykey \<times> string) list) \<times> outcome" where
  "step esc (car_data, gen) Advance =
     (case parse_first_page_next esc car_data gen of
        (car_data', gen', out) \<Rightarrow> ((car_data', gen'), out))"
| "step esc (car_data, gen) (Deliver ev) =
     (case deliver esc car_data ev of (car_data', out) \<Rightarrow> ((car_data', gen), out))"

fun schedule ::
  "(string \<Rightarrow> string) \<Rightarrow> pydict \<times> (pykey \<times> string) list \<Rightarrow> action list
    \<Rightarrow> (pydict \<times> (pykey \<times> string) list) \<times> outcome list" where
  "schedule esc s [] = (s, [])"
| "schedule esc s (a # as) =
     (case step esc s a of
        (s', out) \<Rightarrow> (case schedule esc s' as of (s'', outs) \<Rightarrow> (s'', out # outs)))"

text \<open>
  A schedule in which the generator is consumed to its end before the first completion
  event is handled: \<open>n\<close> resumptions, after which no anchor is left, and then the events.
\<close>

definition discovery_first :: "nat \<Rightarrow> event list \<Rightarrow> action list" where
  "discovery_first n evs = replicate n Advance @ map Deliver evs"

section \<open>Vocabulary of the properties\<close>

text \<open>
  The request an event answers, the \<open>data_key\<close> in its meta, and the value the spider
  stores under that key when it handles the event: the extractor's value, the fixed dict
  of \<open>parse_unknown\<close>, or the error placeholder of \<open>handle_error\<close>. There is no such
  value when the extractor raises.
\<close>

fun ev_request :: "event \<Rightarrow> request" where
  "ev_request (Response r) = resp_request r"
| "ev_request (Failure req err) = req"

definition ev_key :: "event \<Rightarrow> pykey option" where
  "ev_key ev = meta_data_key (ev_request ev)"

fun ev_value :: "event \<Rightarrow> pyval option" where
  "ev_value (Response r) =
     (if callback (resp_request r) = parse_unknown_cb then Some unknown_tab_value
      else (case extracted r of Inl e \<Rightarrow> None | Inr v \<Rightarrow> Some v))"
| "ev_value (Failure req err) = Some (error_value err (url req))"

fun is_failure :: "event \<Rightarrow> bool" where
  "is_failure (Response r) = False"
| "is_failure (Failure req err) = True"

text \<open>The two keys of \<open>car_data\<close> that are bookkeeping and not collected fields.\<close>

definition internal_keys :: "pykey set" where
  "internal_keys = {base_info_key, pending_key}"

text \<open>The seven keys \<open>start_requests\<close> initialises to \<open>None\<close> (lines 25--31).\<close>

definition field_keys :: "pykey set" where
  "field_keys = {KStr ''price'', KStr ''specifications'', KStr ''variants'', KStr ''colours'',
     KStr ''mileage'', KStr ''reviews'', KStr ''gallery''}"


text \<open>
  A request for a tab: it names a tab parser and carries a \<open>data_key\<close> that is not one of
  the two bookkeeping keys.
\<close>

definition tab_request :: "request \<Rightarrow> bool" where
  "tab_request req =
     (callback req \<noteq> parse_first_page_cb \<and>
      (case meta_data_key req of None \<Rightarrow> False | Some k \<Rightarrow> k \<notin> internal_keys))"

text \<open>
  A request as \<open>parse_first_page\<close> yields it for an anchor whose id is not
  \<open>_pending_tabs\<close>: the key \<open>base_info\<close> can only come from an anchor with that id, and
  then the parser is \<open>parse_unknown\<close>.
\<close>

definition anchor_request :: "request \<Rightarrow> bool" where
  "anchor_request req =
     (callback req \<noteq> parse_first_page_cb \<and>
      (case meta_data_key req of
         None \<Rightarrow> False
       | Some k \<Rightarrow> k \<noteq> pending_key \<and> (k = base_info_key \<longrightarrow> callback req = parse_unknown_cb)))"

definition req_keys :: "request list \<Rightarrow> pykey set" where
  "req_keys reqs = {k. Some k \<in> meta_data_key ` set reqs}"

text \<open>The keys under which the events \<open>evs\<close> store a value.\<close>

definition ev_keys :: "event list \<Rightarrow> pykey set" where
  "ev_keys evs = {k. \<exists>ev\<in>set evs. ev_key ev = Some k \<and> ev_value ev \<noteq> None}"

text \<open>
  \<open>car_data\<close> of a car under assembly: the pending set is \<open>P\<close> and the base info is the
  dict \<open>b\<close>.
\<close>

definition assembling :: "pydict \<Rightarrow> pykey set \<Rightarrow> pydict \<Rightarrow> bool" where
  "assembling cd P b = (cd pending_key = Some (PSet P) \<and> cd base_info_key = Some (PDict b))"

text \<open>
  The same without naming the base info, which an anchor with id \<open>base_info\<close> replaces;
  \<open>price\<close> is one of the preset keys, which are never deleted.
\<close>

definition under_assembly :: "pydict \<Rightarrow> pykey set \<Rightarrow> bool" where
  "under_assembly cd P =
     (cd pending_key = Some (PSet P) \<and> (\<exists>b. cd base_info_key = Some (PDict b)) \<and>
      cd (KStr ''price'') \<noteq> None)"

text \<open>The pending set held by \<open>car_data\<close>.\<close>

definition pending_of :: "pydict \<Rightarrow> pykey set" where
  "pending_of cd = (case cd pending_key of Some (PSet S) \<Rightarrow> S | _ \<Rightarrow> {})"

text \<open>
  Discovery for a car with base info \<open>b\<close> when the generator of \<open>parse_first_page\<close> is
  consumed to its end before anything else is handled for the car.
\<close>

definition discover ::
  "(string \<Rightarrow> string) \<Rightarrow> pydict \<Rightarrow> (pykey \<times> string) list \<Rightarrow> pydict \<times> outcome" where
  "discover esc b tbs = parse_first_page esc (new_car_data (PDict b)) tbs"

text \<open>The state of a car when the response of its first request has reached the callback.\<close>

definition first_page :: "pydict \<Rightarrow> (pykey \<times> string) list \<Rightarrow> pydict \<times> (pykey \<times> string) list" where
  "first_page b tbs = (new_car_data (PDict b), tbs)"

text \<open>\<open>record.get(k)\<close> on an emitted item.\<close>

definition field :: "pykey \<Rightarrow> pyval \<Rightarrow> pyval option" where
  "field k v = (case v of PDict m \<Rightarrow> m k | _ \<Rightarrow> None)"

text \<open>
  What an emitted record \<open>r\<close> holds, for a car with base info \<open>b\<close> whose \<open>car_data\<close> was
  \<open>cd\<close> with pending set \<open>P\<close> before the events \<open>evs\<close>: every key either has the value of
  one of the events for it, or was not pending and is as \<open>{**b, **cd}\<close> has it.
\<close>

definition record_of :: "pydict \<Rightarrow> pydict \<Rightarrow> pykey set \<Rightarrow> event list \<Rightarrow> pydict \<Rightarrow> bool" where
  "record_of b cd P evs r =
     (r base_info_key = None \<and> r pending_key = b pending_key \<and>
      (\<forall>k. k \<notin> internal_keys \<longrightarrow>
         (\<exists>ev\<in>set evs. ev_key ev = Some k \<and> ev_value ev \<noteq> None \<and> r k = ev_value ev) \<or>
         (k \<notin> P \<and> r k = (b ++ cd) k)))"

text \<open>
  What \<open>finalize_car_data\<close> returns for \<open>cd\<close> when nothing is pending, and \<open>car_data\<close>
  after the values of the events \<open>evs\<close> have been stored.
\<close>

definition merged :: "pydict \<Rightarrow> pydict" where
  "merged cd =
     (case cd base_info_key of
        Some (PDict b) \<Rightarrow> (b ++ cd(pending_key := None))(base_info_key := None)
      | _ \<Rightarrow> Map.empty)"

fun writes :: "pydict \<Rightarrow> event list \<Rightarrow> pydict" where
  "writes cd [] = cd"
| "writes cd (ev # evs) =
     (case ev_key ev of
        None \<Rightarrow> writes cd evs
      | Some k \<Rightarrow> (case ev_value ev of None \<Rightarrow> writes cd evs | Some v \<Rightarrow> writes (cd(k \<mapsto> v)) evs))"

subsection \<open>A sample car\<close>

text \<open>The sample URLs hold nothing to escape: on them the escaping changes nothing.\<close>

definition plain :: "string \<Rightarrow> string" where
  "plain u = u"

definition ex_base :: pydict where
  "ex_base =
     [KStr ''brand'' \<mapsto> PStr ''Maruti'',
      KStr ''name'' \<mapsto> PStr ''Alto K10'',
      KStr ''detail_url'' \<mapsto> PStr ''http://x/alto/overview'',
      KStr ''specifications'' \<mapsto> PDict [KStr ''fuel'' \<mapsto> PStr ''Petrol'']]"

definition rq_first :: request where
  "rq_first = \<lparr>url = ''http://x/alto/price'', callback = parse_first_page_cb, meta_data_key = None\<rparr>"

definition rq_price :: request where
  "rq_price = \<lparr>url = ''http://x/alto/price'', callback = parse_price,
     meta_data_key = Some (KStr ''price'')\<rparr>"

definition rq_specs :: request where
  "rq_specs = \<lparr>url = ''http://x/alto/specs'', callback = parse_specifications,
     meta_data_key = Some (KStr ''specifications'')\<rparr>"

definition rq_mileage :: request where
  "rq_mileage = \<lparr>url = ''http://x/alto/mileage'', callback = parse_mileage,
     meta_data_key = Some (KStr ''mileage'')\<rparr>"

definition rq_range :: request where
  "rq_range = \<lparr>url = ''http://x/alto/range'', callback = parse_mileage,
     meta_data_key = Some (KStr ''mileage'')\<rparr>"

definition rq_faq :: request where
  "rq_faq = \<lparr>url = ''http://x/alto/faq'', callback = parse_unknown_cb,
     meta_data_key = Some (KStr ''faq'')\<rparr>"

definition tabs_price :: "(pykey \<times> string) list" where
  "tabs_price = [(KStr ''price'', ''http://x/alto/price'')]"

definition tabs_price_specs :: "(pykey \<times> string) list" where
  "tabs_price_specs = [(KStr ''price'', ''http://x/alto/price''), (KStr ''specs'', ''http://x/alto/specs'')]"

definition tabs_mileage_range :: "(pykey \<times> string) list" where
  "tabs_mileage_range =
     [(KStr ''mileage'', ''http://x/alto/mileage''), (KStr ''range'', ''http://x/alto/range'')]"

definition price_value :: pyval where
  "price_value = PDict [KStr ''ex_showroom'' \<mapsto> PStr ''100000'']"

definition specs_value :: pyval where
  "specs_value = PDict [KStr ''engine'' \<mapsto> PDict Map.empty]"

definition mileage_value :: pyval where
  "mileage_value = PDict [KStr ''overview'' \<mapsto> PStr ''24.9 kmpl'']"

definition range_value :: pyval where
  "range_value = PDict [KStr ''overview'' \<mapsto> PStr ''315 km'']"

text \<open>A response whose extractor returns \<open>v\<close>, and one whose extractor raises \<open>e\<close>.\<close>

definition ok :: "request \<Rightarrow> pyval \<Rightarrow> event" where
  "ok req v = Response \<lparr>resp_request = req, tabs = [], extracted = Inr v\<rparr>"

definition crash :: "request \<Rightarrow> pyerror \<Rightarrow> event" where
  "crash req e = Response \<lparr>resp_request = req, tabs = [], extracted = Inl e\<rparr>"

lemmas spider_defs = tab_lookup_def tab_mapping_def pending_add_def pending_remove_def
  finalize_car_data_def remove_and_finalize_def process_tab_def parse_unknown_def parse_tab_def
  handle_error_def nothing_def new_car_data_def emitted_def yielded_def unknown_tab_value_def
  error_value_def discover_def first_page_def discovery_first_def scrapy_Request_def
  has_scheme_def plain_def insert_Diff_if

lemmas sample_defs = ex_base_def rq_first_def rq_price_def rq_specs_def rq_mileage_def
  rq_range_def rq_faq_def tabs_price_def tabs_price_specs_def tabs_mileage_range_def
  price_value_def specs_value_def mileage_value_def range_value_def
  ok_def crash_def

section \<open>How tab events act on car_data\<close>

lemma upd_None_nonempty: "k \<noteq> k' \<Longrightarrow> (m(k \<mapsto> v))(k' := None) \<noteq> Map.empty"
  by (metis fun_upd_other fun_upd_same option.distinct(1))

lemma emitted_Cons:
  "emitted (run esc cd (ev # evs)) =
     items (snd (deliver esc cd ev)) @ emitted (run esc (fst (deliver esc cd ev)) evs)"
  by (simp add: emitted_def split: prod.splits)


lemma remove_and_finalize_pending:
  assumes "cd pending_key = Some (PSet P)" "k \<in> P" "k \<notin> internal_keys"
    "cd base_info_key = Some (PDict b)"
  shows "remove_and_finalize (cd(k \<mapsto> v)) k logs =
     (cd(k \<mapsto> v, pending_key \<mapsto> PSet (P - {k})),
      \<lparr>requests = [],
       items = (if P - {k} = {}
                then [PDict ((b ++ (cd(k \<mapsto> v, pending_key := None)))(base_info_key := None))]
                else []),
       logged = logs, raised = None\<rparr>)"
proof -
  from assms(3) have k: "k \<noteq> pending_key" "pending_key \<noteq> k" "k \<noteq> base_info_key"
    "base_info_key \<noteq> k"
    by (auto simp: internal_keys_def)
  have "((b ++ (cd(k \<mapsto> v, pending_key := None)))(base_info_key := None)) k = Some v"
    using k by simp
  then have ne: "(b ++ (cd(k \<mapsto> v, pending_key := None)))(base_info_key := None) \<noteq> Map.empty"
    by (metis option.distinct(1))
  have rem: "pending_remove (cd(k \<mapsto> v)) k = Inr (cd(k \<mapsto> v, pending_key \<mapsto> PSet (P - {k})))"
    using assms(1,2) k by (simp add: pending_remove_def)
  have upd: "(cd(k \<mapsto> v, pending_key \<mapsto> PSet (P - {k})))(pending_key := None)
       = cd(k \<mapsto> v, pending_key := None)"
    by simp
  have fin: "finalize_car_data (cd(k \<mapsto> v, pending_key \<mapsto> PSet (P - {k}))) =
      Inr (if P - {k} = {}
           then PDict ((b ++ (cd(k \<mapsto> v, pending_key := None)))(base_info_key := None))
           else PNone)"
    unfolding finalize_car_data_def upd using assms(4) k by simp
  show ?thesis
    using ne by (simp add: remove_and_finalize_def rem fin nothing_def)
qed

lemma remove_and_finalize_stale:
  assumes "cd pending_key = Some (PSet P)" "k \<notin> P" "k \<noteq> pending_key"
  shows "remove_and_finalize (cd(k \<mapsto> v)) k logs =
     (cd(k \<mapsto> v), \<lparr>requests = [], items = [], logged = logs, raised = Some KeyError\<rparr>)"
  using assms by (simp add: remove_and_finalize_def pending_remove_def nothing_def)

lemma deliver_tab:
  assumes "callback (ev_request ev) \<noteq> parse_first_page_cb" "ev_key ev = Some k"
    "ev_value ev = Some v"
  shows "\<exists>logs. deliver esc cd ev = remove_and_finalize (cd(k \<mapsto> v)) k logs"
  using assms
  by (cases ev)
    (auto simp: ev_key_def parse_unknown_def parse_tab_def process_tab_def
      handle_error_def split: callback.splits sum.splits if_splits)

lemma deliver_raising:
  assumes "callback (ev_request ev) \<noteq> parse_first_page_cb" "ev_key ev = Some k"
    "ev_value ev = None"
  shows "fst (deliver esc cd ev) = cd" and "items (snd (deliver esc cd ev)) = []"
    and "raised (snd (deliver esc cd ev)) \<noteq> None"
  using assms
  by (cases ev;
      auto simp: ev_key_def parse_unknown_def parse_tab_def process_tab_def nothing_def
        split: callback.splits sum.splits if_splits)+

lemma tab_request_key:
  assumes "tab_request (ev_request ev)"
  obtains k where "ev_key ev = Some k" "k \<notin> internal_keys"
    "callback (ev_request ev) \<noteq> parse_first_page_cb"
  using assms by (auto simp: tab_request_def ev_key_def split: option.splits)

lemma deliver_pending:
  assumes "tab_request (ev_request ev)" "ev_key ev = Some k" "ev_value ev = Some v"
    "assembling cd P b" "k \<in> P"
  shows "fst (deliver esc cd ev) = cd(k \<mapsto> v, pending_key \<mapsto> PSet (P - {k}))"
    and "items (snd (deliver esc cd ev)) =
      (if P - {k} = {}
       then [PDict ((b ++ (cd(k \<mapsto> v, pending_key := None)))(base_info_key := None))]
       else [])"
    and "raised (snd (deliver esc cd ev)) = None"
proof -
  from assms(1,2) have k: "k \<notin> internal_keys"
    and cb: "callback (ev_request ev) \<noteq> parse_first_page_cb"
    by (auto simp: tab_request_def ev_key_def split: option.splits)
  obtain logs where "deliver esc cd ev = remove_and_finalize (cd(k \<mapsto> v)) k logs"
    using deliver_tab[OF cb assms(2,3)] by blast
  then have d: "deliver esc cd ev =
     (cd(k \<mapsto> v, pending_key \<mapsto> PSet (P - {k})),
      \<lparr>requests = [],
       items = (if P - {k} = {}
                then [PDict ((b ++ (cd(k \<mapsto> v, pending_key := None)))(base_info_key := None))]
                else []),
       logged = logs, raised = None\<rparr>)"
    using remove_and_finalize_pending[of cd P k b] assms(4,5) k
    by (simp add: assembling_def)
  show "fst (deliver esc cd ev) = cd(k \<mapsto> v, pending_key \<mapsto> PSet (P - {k}))"
    by (simp add: d)
  show "items (snd (deliver esc cd ev)) =
      (if P - {k} = {}
       then [PDict ((b ++ (cd(k \<mapsto> v, pending_key := None)))(base_info_key := None))]
       else [])"
    by (simp add: d)
  show "raised (snd (deliver esc cd ev)) = None"
    by (simp add: d)
qed

lemma deliver_stale:
  assumes "tab_request (ev_request ev)" "ev_key ev = Some k" "ev_value ev = Some v"
    "assembling cd P b" "k \<notin> P"
  shows "fst (deliver esc cd ev) = cd(k \<mapsto> v)"
    and "items (snd (deliver esc cd ev)) = []"
    and "raised (snd (deliver esc cd ev)) = Some KeyError"
proof -
  from assms(1,2) have k: "k \<noteq> pending_key"
    and cb: "callback (ev_request ev) \<noteq> parse_first_page_cb"
    by (auto simp: tab_request_def ev_key_def internal_keys_def split: option.splits)
  obtain logs where "deliver esc cd ev = remove_and_finalize (cd(k \<mapsto> v)) k logs"
    using deliver_tab[OF cb assms(2,3)] by blast
  then have d: "deliver esc cd ev =
     (cd(k \<mapsto> v), \<lparr>requests = [], items = [], logged = logs, raised = Some KeyError\<rparr>)"
    using remove_and_finalize_stale[of cd P k] assms(4,5) k
    by (simp add: assembling_def)
  show "fst (deliver esc cd ev) = cd(k \<mapsto> v)" by (simp add: d)
  show "items (snd (deliver esc cd ev)) = []" by (simp add: d)
  show "raised (snd (deliver esc cd ev)) = Some KeyError" by (simp add: d)
qed

lemma assembling_pending:
  assumes "assembling cd P b" "k \<notin> internal_keys"
  shows "assembling (cd(k \<mapsto> v, pending_key \<mapsto> PSet P')) P' b"
  using assms by (auto simp: assembling_def internal_keys_def)

lemma assembling_stale:
  assumes "assembling cd P b" "k \<notin> internal_keys"
  shows "assembling (cd(k \<mapsto> v)) P b"
  using assms by (auto simp: assembling_def internal_keys_def)

lemma ev_keys_Nil: "ev_keys [] = {}"
  by (simp add: ev_keys_def)

lemma ev_keys_Cons:
  "ev_key ev = Some k \<Longrightarrow> ev_value ev = Some v \<Longrightarrow> ev_keys (ev # evs) = insert k (ev_keys evs)"
  by (auto simp: ev_keys_def)

lemma ev_keys_Cons_raising: "ev_value ev = None \<Longrightarrow> ev_keys (ev # evs) = ev_keys evs"
  by (auto simp: ev_keys_def)

lemma ev_keys_I:
  "ev \<in> set evs \<Longrightarrow> ev_key ev = Some k \<Longrightarrow> ev_value ev \<noteq> None \<Longrightarrow> k \<in> ev_keys evs"
  by (force simp: ev_keys_def)

lemma run_incomplete:
  assumes "assembling cd P b" "\<forall>ev\<in>set evs. tab_request (ev_request ev)"
    "P = {} \<or> \<not> P \<subseteq> ev_keys evs"
  shows "emitted (run esc cd evs) = []"
  using assms
proof (induction evs arbitrary: cd P)
  case Nil
  then show ?case by (simp add: emitted_def)
next
  case (Cons ev evs)
  from Cons.prems(2) have tr: "tab_request (ev_request ev)"
    and trs: "\<forall>ev\<in>set evs. tab_request (ev_request ev)" by simp_all
  then obtain k where k: "ev_key ev = Some k" "k \<notin> internal_keys"
    and cb: "callback (ev_request ev) \<noteq> parse_first_page_cb"
    by (auto elim: tab_request_key)
  show ?case
  proof (cases "ev_value ev")
    case None
    note d = deliver_raising[OF cb k(1) None]
    have inc': "P = {} \<or> \<not> P \<subseteq> ev_keys evs"
      using Cons.prems(3) by (simp add: ev_keys_Cons_raising[OF None])
    have "emitted (run esc cd evs) = []"
      by (rule Cons.IH[OF Cons.prems(1) trs inc'])
    then show ?thesis
      unfolding emitted_Cons d(1) d(2) by simp
  next
    case (Some v)
    show ?thesis
    proof (cases "k \<in> P")
      case True
      with Cons.prems(3) have inc: "\<not> P \<subseteq> ev_keys (ev # evs)" by auto
      then have ne: "P - {k} \<noteq> {}" and inc': "P - {k} = {} \<or> \<not> P - {k} \<subseteq> ev_keys evs"
        by (auto simp: ev_keys_Cons[OF k(1) Some])
      note d = deliver_pending[OF tr k(1) Some Cons.prems(1) True]
      have "emitted (run esc (cd(k \<mapsto> v, pending_key \<mapsto> PSet (P - {k}))) evs) = []"
        by (rule Cons.IH[OF assembling_pending[OF Cons.prems(1) k(2)] trs inc'])
      then show ?thesis
        unfolding emitted_Cons d(1) d(2) using ne by simp
    next
      case False
      have inc': "P = {} \<or> \<not> P \<subseteq> ev_keys evs"
        using Cons.prems(3) False by (auto simp: ev_keys_Cons[OF k(1) Some])
      note d = deliver_stale[OF tr k(1) Some Cons.prems(1) False]
      have "emitted (run esc (cd(k \<mapsto> v)) evs) = []"
        by (rule Cons.IH[OF assembling_stale[OF Cons.prems(1) k(2)] trs inc'])
      then show ?thesis
        unfolding emitted_Cons d(1) d(2) by simp
    qed
  qed
qed

lemma record_of_Cons:
  assumes "record_of b cd P evs r"
  shows "record_of b cd P (ev # evs) r"
  using assms unfolding record_of_def by (metis list.set_intros(2))

lemma run_complete:
  assumes "assembling cd P b" "\<forall>ev\<in>set evs. tab_request (ev_request ev)"
    "P \<noteq> {}" "P \<subseteq> ev_keys evs"
  shows "\<exists>r. emitted (run esc cd evs) = [PDict r] \<and> record_of b cd P evs r"
  using assms
proof (induction evs arbitrary: cd P)
  case Nil
  then show ?case by (simp add: ev_keys_def)
next
  case (Cons ev evs)
  from Cons.prems(2) have tr: "tab_request (ev_request ev)"
    and trs: "\<forall>ev\<in>set evs. tab_request (ev_request ev)" by simp_all
  then obtain k where k: "ev_key ev = Some k" "k \<notin> internal_keys"
    and cb: "callback (ev_request ev) \<noteq> parse_first_page_cb"
    by (auto elim: tab_request_key)
  from k(2) have kk: "k \<noteq> pending_key" "k \<noteq> base_info_key"
    by (auto simp: internal_keys_def)
  show ?case
  proof (cases "ev_value ev")
    case None
    note d = deliver_raising[OF cb k(1) None]
    have sub: "P \<subseteq> ev_keys evs"
      using Cons.prems(4) by (simp add: ev_keys_Cons_raising[OF None])
    from Cons.IH[OF Cons.prems(1) trs Cons.prems(3) sub]
    obtain r where r: "emitted (run esc cd evs) = [PDict r]" "record_of b cd P evs r"
      by blast
    have em: "emitted (run esc cd (ev # evs)) = [PDict r]"
      unfolding emitted_Cons d(1) d(2) r(1) by simp
    with record_of_Cons[OF r(2)] show ?thesis by blast
  next
    case (Some v)
    have val: "ev_value ev \<noteq> None" using Some by simp
    show ?thesis
    proof (cases "k \<in> P")
      case True
      let ?cd = "cd(k \<mapsto> v, pending_key \<mapsto> PSet (P - {k}))"
      have as: "assembling ?cd (P - {k}) b"
        by (rule assembling_pending[OF Cons.prems(1) k(2)])
      show ?thesis
      proof (cases "P - {k} = {}")
        case True
        let ?r = "(b ++ (cd(k \<mapsto> v, pending_key := None)))(base_info_key := None)"
        have rest: "emitted (run esc ?cd evs) = []"
          by (rule run_incomplete[OF as trs]) (use True in blast)
        note d = deliver_pending[OF tr k(1) Some Cons.prems(1) \<open>k \<in> P\<close>]
        have em: "emitted (run esc cd (ev # evs)) = [PDict ?r]"
          unfolding emitted_Cons d(1) d(2) rest using True by simp
        have "record_of b cd P (ev # evs) ?r"
          unfolding record_of_def
        proof (intro conjI allI impI)
          show "?r base_info_key = None" by simp
          show "?r pending_key = b pending_key" by (simp add: map_add_def)
          fix k' assume k': "k' \<notin> internal_keys"
          show "(\<exists>e\<in>set (ev # evs). ev_key e = Some k' \<and> ev_value e \<noteq> None \<and> ?r k' = ev_value e) \<or>
                (k' \<notin> P \<and> ?r k' = (b ++ cd) k')"
          proof (cases "k' = k")
            case True
            then show ?thesis using k kk Some by (auto simp: map_add_def)
          next
            case False
            then have "k' \<notin> P" using \<open>P - {k} = {}\<close> by auto
            moreover have "?r k' = (b ++ cd) k'"
              using False k' by (auto simp: map_add_def internal_keys_def)
            ultimately show ?thesis by blast
          qed
        qed
        with em show ?thesis by blast
      next
        case False
        have sub: "P - {k} \<subseteq> ev_keys evs"
          using Cons.prems(4) by (auto simp: ev_keys_Cons[OF k(1) Some])
        from Cons.IH[OF as trs False sub]
        obtain r where r: "emitted (run esc ?cd evs) = [PDict r]" "record_of b ?cd (P - {k}) evs r"
          by blast
        note d = deliver_pending[OF tr k(1) Some Cons.prems(1) \<open>k \<in> P\<close>]
        have em: "emitted (run esc cd (ev # evs)) = [PDict r]"
          unfolding emitted_Cons d(1) d(2) r(1) using False by simp
        have "record_of b cd P (ev # evs) r"
          unfolding record_of_def
        proof (intro conjI allI impI)
          show "r base_info_key = None" "r pending_key = b pending_key"
            using r(2) by (simp_all add: record_of_def)
          fix k' assume k': "k' \<notin> internal_keys"
          from r(2) k' consider
            (a) "\<exists>e\<in>set evs. ev_key e = Some k' \<and> ev_value e \<noteq> None \<and> r k' = ev_value e"
            | (b) "k' \<notin> P - {k}" "r k' = (b ++ ?cd) k'"
            unfolding record_of_def by blast
          then show "(\<exists>e\<in>set (ev # evs). ev_key e = Some k' \<and> ev_value e \<noteq> None \<and> r k' = ev_value e) \<or>
                (k' \<notin> P \<and> r k' = (b ++ cd) k')"
          proof cases
            case a
            then show ?thesis by auto
          next
            case b
            show ?thesis
            proof (cases "k' = k")
              case True
              then show ?thesis using b k kk Some by (auto simp: map_add_def)
            next
              case False
              then show ?thesis using b k' by (auto simp: map_add_def internal_keys_def)
            qed
          qed
        qed
        with em show ?thesis by blast
      qed
    next
      case False
      let ?cd = "cd(k \<mapsto> v)"
      have as: "assembling ?cd P b"
        by (rule assembling_stale[OF Cons.prems(1) k(2)])
      have sub: "P \<subseteq> ev_keys evs"
        using Cons.prems(4) False by (auto simp: ev_keys_Cons[OF k(1) Some])
      from Cons.IH[OF as trs Cons.prems(3) sub]
      obtain r where r: "emitted (run esc ?cd evs) = [PDict r]" "record_of b ?cd P evs r"
        by blast
      note d = deliver_stale[OF tr k(1) Some Cons.prems(1) False]
      have em: "emitted (run esc cd (ev # evs)) = [PDict r]"
        unfolding emitted_Cons d(1) d(2) r(1) by simp
      have "record_of b cd P (ev # evs) r"
        unfolding record_of_def
      proof (intro conjI allI impI)
        show "r base_info_key = None" "r pending_key = b pending_key"
          using r(2) by (simp_all add: record_of_def)
        fix k' assume k': "k' \<notin> internal_keys"
        from r(2) k' consider
          (a) "\<exists>e\<in>set evs. ev_key e = Some k' \<and> ev_value e \<noteq> None \<and> r k' = ev_value e"
          | (b) "k' \<notin> P" "r k' = (b ++ ?cd) k'"
          unfolding record_of_def by blast
        then show "(\<exists>e\<in>set (ev # evs). ev_key e = Some k' \<and> ev_value e \<noteq> None \<and> r k' = ev_value e) \<or>
              (k' \<notin> P \<and> r k' = (b ++ cd) k')"
        proof cases
          case a
          then show ?thesis by auto
        next
          case b
          show ?thesis
          proof (cases "k' = k")
            case True
            then show ?thesis using b k kk Some by (auto simp: map_add_def)
          next
            case False
            then show ?thesis using b k' by (auto simp: map_add_def internal_keys_def)
          qed
        qed
      qed
      with em show ?thesis by blast
    qed
  qed
qed



section \<open>Discovery\<close>

lemma tab_lookup_key:
  assumes "tab_lookup t = (k, Some p)"
  shows "p \<noteq> parse_first_page_cb" and "k \<in> field_keys \<or> (k = t \<and> p = parse_unknown_cb)"
  using assms
  by (auto simp: tab_lookup_def tab_mapping_def field_keys_def split: option.splits if_splits)

lemma scrapy_Request_shape:
  assumes "scrapy_Request esc u p key = Inr req"
  shows "req = \<lparr>url = esc u, callback = p, meta_data_key = key\<rparr>" and "has_scheme (esc u)"
  using assms by (auto simp: scrapy_Request_def split: if_splits)

lemma req_keys_Nil: "req_keys [] = {}"
  by (simp add: req_keys_def)

lemma req_keys_Cons:
  "meta_data_key req = Some k \<Longrightarrow> req_keys (req # reqs) = insert k (req_keys reqs)"
  by (auto simp: req_keys_def)

lemma req_keys_set: "set reqs = set reqs' \<Longrightarrow> req_keys reqs = req_keys reqs'"
  by (simp add: req_keys_def)


text \<open>
  One step of the loop of \<open>parse_first_page\<close>, for a tab that is followed: the key is
  added; then the request is built, or the constructor raises.
\<close>

lemma parse_first_page_skip:
  assumes "t \<in> set [KStr ''model'', KStr ''compare''] \<or> snd (tab_lookup t) = None"
  shows "parse_first_page esc cd ((t, u) # rest) = parse_first_page esc cd rest"
    and "parse_first_page_next esc cd ((t, u) # rest) = parse_first_page_next esc cd rest"
  using assms by (auto split: prod.splits option.splits)

lemma parse_first_page_raise:
  assumes "t \<notin> set [KStr ''model'', KStr ''compare'']" "tab_lookup t = (k, Some p)"
    "pending_add cd k = Inr cd'" "scrapy_Request esc u p (Some k) = Inl e"
  shows "parse_first_page esc cd ((t, u) # rest) = (cd', nothing\<lparr>raised := Some e\<rparr>)"
    and "parse_first_page_next esc cd ((t, u) # rest) = (cd', [], nothing\<lparr>raised := Some e\<rparr>)"
  using assms by auto

lemma parse_first_page_yield:
  assumes "t \<notin> set [KStr ''model'', KStr ''compare'']" "tab_lookup t = (k, Some p)"
    "pending_add cd k = Inr cd'" "scrapy_Request esc u p (Some k) = Inr req"
  shows "parse_first_page esc cd ((t, u) # rest) =
      (fst (parse_first_page esc cd' rest),
       (snd (parse_first_page esc cd' rest))
         \<lparr>requests := req # requests (snd (parse_first_page esc cd' rest))\<rparr>)"
    and "parse_first_page_next esc cd ((t, u) # rest) = (cd', rest, nothing\<lparr>requests := [req]\<rparr>)"
  using assms by (auto split: prod.splits)

lemma parse_first_page_add_fails:
  assumes "t \<notin> set [KStr ''model'', KStr ''compare'']" "tab_lookup t = (k, Some p)"
    "pending_add cd k = Inl e"
  shows "parse_first_page esc cd ((t, u) # rest) = (cd, nothing\<lparr>raised := Some e\<rparr>)"
    and "parse_first_page_next esc cd ((t, u) # rest) = (cd, [], nothing\<lparr>raised := Some e\<rparr>)"
  using assms by auto

text \<open>What the generator, consumed to its end, has done to \<open>car_data\<close>.\<close>

lemma parse_first_page_state:
  assumes "cd pending_key = Some (PSet S)"
  shows "\<exists>K. fst (parse_first_page esc cd tbs) = cd(pending_key \<mapsto> PSet (S \<union> K))
     \<and> req_keys (requests (snd (parse_first_page esc cd tbs))) \<subseteq> K
     \<and> K \<subseteq> fst ` set tbs \<union> field_keys
     \<and> (raised (snd (parse_first_page esc cd tbs)) = None \<longrightarrow>
           K = req_keys (requests (snd (parse_first_page esc cd tbs))))
     \<and> items (snd (parse_first_page esc cd tbs)) = []
     \<and> logged (snd (parse_first_page esc cd tbs)) = []"
  using assms
proof (induction tbs arbitrary: cd S)
  case Nil
  have "cd = cd(pending_key \<mapsto> PSet (S \<union> {}))"
    using Nil by (auto simp: fun_eq_iff)
  then show ?case
    by (intro exI[of _ "{}"]) (simp add: nothing_def req_keys_Nil)
next
  case (Cons tab tbs)
  obtain t u where tab: "tab = (t, u)" by (cases tab)
  obtain k po where lk: "tab_lookup t = (k, po)" by (cases "tab_lookup t")
  show ?case
  proof (cases "t \<in> set [KStr ''model'', KStr ''compare''] \<or> po = None")
    case True
    then have e: "parse_first_page esc cd (tab # tbs) = parse_first_page esc cd tbs"
      unfolding tab using lk by (intro parse_first_page_skip) simp
    from Cons.IH[of cd S, OF Cons.prems] obtain K where K0: "(fst (parse_first_page esc cd tbs) = cd(pending_key \<mapsto> PSet (S \<union> K))) \<and>
        (req_keys (requests (snd (parse_first_page esc cd tbs))) \<subseteq> K) \<and>
        (K \<subseteq> fst ` set tbs \<union> field_keys) \<and>
        (raised (snd (parse_first_page esc cd tbs)) = None \<longrightarrow>
           K = req_keys (requests (snd (parse_first_page esc cd tbs)))) \<and>
        (items (snd (parse_first_page esc cd tbs)) = []) \<and>
        (logged (snd (parse_first_page esc cd tbs)) = [])" ..
    note K = K0[THEN conjunct1] K0[THEN conjunct2, THEN conjunct1] K0[THEN conjunct2, THEN conjunct2, THEN conjunct1] K0[THEN conjunct2, THEN conjunct2, THEN conjunct2, THEN conjunct1] K0[THEN conjunct2, THEN conjunct2, THEN conjunct2, THEN conjunct2, THEN conjunct1] K0[THEN conjunct2, THEN conjunct2, THEN conjunct2, THEN conjunct2, THEN conjunct2]
    from K(3) have K3: "K \<subseteq> fst ` set (tab # tbs) \<union> field_keys" by auto
    show ?thesis unfolding e
      by (intro exI[of _ K] conjI) (rule K(1) K(2) K3 K(4) K(5) K(6))+
  next
    case False
    then obtain p where p: "po = Some p" and nskip: "t \<notin> set [KStr ''model'', KStr ''compare'']"
      by auto
    note lk' = lk[unfolded p]
    let ?cd = "cd(pending_key \<mapsto> PSet (insert k S))"
    have add: "pending_add cd k = Inr ?cd"
      using Cons.prems by (simp add: pending_add_def)
    from tab_lookup_key(2)[OF lk'] have kin: "k \<in> fst ` set (tab # tbs) \<union> field_keys"
      unfolding tab by auto
    show ?thesis
    proof (cases "scrapy_Request esc u p (Some k)")
      case (Inl e)
      have e: "parse_first_page esc cd (tab # tbs) = (?cd, nothing\<lparr>raised := Some e\<rparr>)"
        unfolding tab by (rule parse_first_page_raise(1)[OF nskip lk' add Inl])
      have "?cd = cd(pending_key \<mapsto> PSet (S \<union> {k}))" by simp
      then show ?thesis
        unfolding e using kin
        by (intro exI[of _ "{k}"]) (simp add: nothing_def req_keys_Nil)
    next
      case (Inr req)
      have e: "parse_first_page esc cd (tab # tbs) =
          (fst (parse_first_page esc ?cd tbs),
           (snd (parse_first_page esc ?cd tbs))
             \<lparr>requests := req # requests (snd (parse_first_page esc ?cd tbs))\<rparr>)"
        unfolding tab by (rule parse_first_page_yield(1)[OF nskip lk' add Inr])
      have rk: "meta_data_key req = Some k"
        using scrapy_Request_shape(1)[OF Inr] by simp
      have "?cd pending_key = Some (PSet (insert k S))" by simp
      from Cons.IH[of ?cd "insert k S", OF this] obtain K where K0: "(fst (parse_first_page esc ?cd tbs) = ?cd(pending_key \<mapsto> PSet (insert k S \<union> K))) \<and>
        (req_keys (requests (snd (parse_first_page esc ?cd tbs))) \<subseteq> K) \<and>
        (K \<subseteq> fst ` set tbs \<union> field_keys) \<and>
        (raised (snd (parse_first_page esc ?cd tbs)) = None \<longrightarrow>
             K = req_keys (requests (snd (parse_first_page esc ?cd tbs)))) \<and>
        (items (snd (parse_first_page esc ?cd tbs)) = []) \<and>
        (logged (snd (parse_first_page esc ?cd tbs)) = [])" ..
    note K = K0[THEN conjunct1] K0[THEN conjunct2, THEN conjunct1] K0[THEN conjunct2, THEN conjunct2, THEN conjunct1] K0[THEN conjunct2, THEN conjunct2, THEN conjunct2, THEN conjunct1] K0[THEN conjunct2, THEN conjunct2, THEN conjunct2, THEN conjunct2, THEN conjunct1] K0[THEN conjunct2, THEN conjunct2, THEN conjunct2, THEN conjunct2, THEN conjunct2]
      have 1: "fst (parse_first_page esc cd (tab # tbs)) = cd(pending_key \<mapsto> PSet (S \<union> insert k K))"
        unfolding e fst_conv K(1) by simp
      have 2: "req_keys (requests (snd (parse_first_page esc cd (tab # tbs)))) \<subseteq> insert k K"
        unfolding e using K(2) by (auto simp: req_keys_Cons[OF rk])
      have 3: "insert k K \<subseteq> fst ` set (tab # tbs) \<union> field_keys"
        using kin K(3) by auto
      have 4: "raised (snd (parse_first_page esc cd (tab # tbs))) = None \<longrightarrow>
           insert k K = req_keys (requests (snd (parse_first_page esc cd (tab # tbs))))"
        unfolding e using K(4) by (auto simp: req_keys_Cons[OF rk])
      have 5: "items (snd (parse_first_page esc cd (tab # tbs))) = []"
        "logged (snd (parse_first_page esc cd (tab # tbs))) = []"
        unfolding e using K(5,6) by simp_all
      show ?thesis
        by (intro exI[of _ "insert k K"] conjI) (rule 1 2 3 4 5)+
    qed
  qed
qed

lemma parse_first_page_requests:
  assumes "req \<in> set (requests (snd (parse_first_page esc cd tbs)))"
  shows "callback req \<noteq> parse_first_page_cb \<and>
     (\<exists>k. meta_data_key req = Some k \<and>
        (k \<in> field_keys \<or> (k \<in> fst ` set tbs \<and> callback req = parse_unknown_cb)))"
  using assms
proof (induction tbs arbitrary: cd)
  case Nil
  then show ?case by (simp add: nothing_def)
next
  case (Cons tab tbs)
  obtain t u where tab: "tab = (t, u)" by (cases tab)
  obtain k po where lk: "tab_lookup t = (k, po)" by (cases "tab_lookup t")
  show ?case
  proof (cases "t \<in> set [KStr ''model'', KStr ''compare''] \<or> po = None")
    case True
    then have e: "parse_first_page esc cd (tab # tbs) = parse_first_page esc cd tbs"
      unfolding tab using lk by (intro parse_first_page_skip) simp
    from Cons.IH[of cd] Cons.prems show ?thesis unfolding e by auto
  next
    case False
    then obtain p where p: "po = Some p" and nskip: "t \<notin> set [KStr ''model'', KStr ''compare'']"
      by auto
    note lk' = lk[unfolded p]
    show ?thesis
    proof (cases "pending_add cd k")
      case (Inl e)
      have "parse_first_page esc cd (tab # tbs) = (cd, nothing\<lparr>raised := Some e\<rparr>)"
        unfolding tab by (rule parse_first_page_add_fails(1)[OF nskip lk' Inl])
      with Cons.prems show ?thesis by (simp add: nothing_def)
    next
      case add: (Inr cd')
      show ?thesis
      proof (cases "scrapy_Request esc u p (Some k)")
        case (Inl e)
        have "parse_first_page esc cd (tab # tbs) = (cd', nothing\<lparr>raised := Some e\<rparr>)"
          unfolding tab by (rule parse_first_page_raise(1)[OF nskip lk' add Inl])
        with Cons.prems show ?thesis by (simp add: nothing_def)
      next
        case (Inr rq)
        have e: "requests (snd (parse_first_page esc cd (tab # tbs))) =
            rq # requests (snd (parse_first_page esc cd' tbs))"
          unfolding tab parse_first_page_yield(1)[OF nskip lk' add Inr] by simp
        from Cons.prems consider "req = rq" | "req \<in> set (requests (snd (parse_first_page esc cd' tbs)))"
          unfolding e by auto
        then show ?thesis
        proof cases
          case 1
          then show ?thesis
            using tab_lookup_key[OF lk'] scrapy_Request_shape(1)[OF Inr] tab by auto
        next
          case 2
          from Cons.IH[of cd', OF 2] show ?thesis by auto
        qed
      qed
    qed
  qed
qed

lemma new_car_data_pending: "new_car_data car pending_key = Some (PSet {})"
  by (simp add: new_car_data_def)

lemma discover_state:
  "\<exists>K. fst (discover esc b tbs) = (new_car_data (PDict b))(pending_key \<mapsto> PSet K)
     \<and> req_keys (requests (snd (discover esc b tbs))) \<subseteq> K
     \<and> K \<subseteq> fst ` set tbs \<union> field_keys
     \<and> (raised (snd (discover esc b tbs)) = None \<longrightarrow> K = req_keys (requests (snd (discover esc b tbs))))"
  using parse_first_page_state[of "new_car_data (PDict b)" "{}" esc tbs, OF new_car_data_pending]
  unfolding discover_def by auto

lemma discover_quiet:
  "items (snd (discover esc b tbs)) = []" "logged (snd (discover esc b tbs)) = []"
  using parse_first_page_state[of "new_car_data (PDict b)" "{}" esc tbs, OF new_car_data_pending]
  unfolding discover_def by auto

lemma discover_pending:
  "fst (discover esc b tbs) =
     (new_car_data (PDict b))(pending_key \<mapsto> PSet (pending_of (fst (discover esc b tbs))))"
  and discover_pending_sub:
  "req_keys (requests (snd (discover esc b tbs))) \<subseteq> pending_of (fst (discover esc b tbs))"
  "pending_of (fst (discover esc b tbs)) \<subseteq> fst ` set tbs \<union> field_keys"
  and discover_pending_eq:
  "raised (snd (discover esc b tbs)) = None \<Longrightarrow>
     pending_of (fst (discover esc b tbs)) = req_keys (requests (snd (discover esc b tbs)))"
proof -
  from discover_state[of esc b tbs] obtain K where K0: "(fst (discover esc b tbs) = (new_car_data (PDict b))(pending_key \<mapsto> PSet K)) \<and>
        (req_keys (requests (snd (discover esc b tbs))) \<subseteq> K) \<and>
        (K \<subseteq> fst ` set tbs \<union> field_keys) \<and>
        (raised (snd (discover esc b tbs)) = None \<longrightarrow> K = req_keys (requests (snd (discover esc b tbs))))" ..
    note K = K0[THEN conjunct1] K0[THEN conjunct2, THEN conjunct1] K0[THEN conjunct2, THEN conjunct2, THEN conjunct1] K0[THEN conjunct2, THEN conjunct2, THEN conjunct2]
  have p: "pending_of (fst (discover esc b tbs)) = K"
    unfolding K(1) by (simp add: pending_of_def)
  show "fst (discover esc b tbs) =
     (new_car_data (PDict b))(pending_key \<mapsto> PSet (pending_of (fst (discover esc b tbs))))"
    unfolding p by (rule K(1))
  show "req_keys (requests (snd (discover esc b tbs))) \<subseteq> pending_of (fst (discover esc b tbs))"
    unfolding p by (rule K(2))
  show "pending_of (fst (discover esc b tbs)) \<subseteq> fst ` set tbs \<union> field_keys"
    unfolding p by (rule K(3))
  show "raised (snd (discover esc b tbs)) = None \<Longrightarrow>
     pending_of (fst (discover esc b tbs)) = req_keys (requests (snd (discover esc b tbs)))"
    unfolding p using K(4) by blast
qed

lemma discover_assembling:
  "assembling (fst (discover esc b tbs)) (pending_of (fst (discover esc b tbs))) b"
  by (subst discover_pending) (simp add: assembling_def new_car_data_def)


lemma discover_request_key:
  assumes "req \<in> set (requests (snd (discover esc b tbs)))"
  shows "callback req \<noteq> parse_first_page_cb"
    and "\<exists>k. meta_data_key req = Some k \<and>
        (k \<in> field_keys \<or> (k \<in> fst ` set tbs \<and> callback req = parse_unknown_cb))"
  using parse_first_page_requests[of req esc "new_car_data (PDict b)" tbs] assms
  unfolding discover_def by auto

lemma field_keys_not_internal: "field_keys \<inter> internal_keys = {}"
  by (simp add: field_keys_def internal_keys_def)

lemma discover_tab_request:
  assumes "fst ` set tbs \<inter> internal_keys = {}" "req \<in> set (requests (snd (discover esc b tbs)))"
  shows "tab_request req"
  using discover_request_key[OF assms(2)] assms(1) field_keys_not_internal
  by (auto simp: tab_request_def)

lemma discover_anchor_request:
  assumes "pending_key \<notin> fst ` set tbs" "req \<in> set (requests (snd (discover esc b tbs)))"
  shows "anchor_request req"
proof -
  from discover_request_key[OF assms(2)] obtain k where
    k: "callback req \<noteq> parse_first_page_cb" "meta_data_key req = Some k"
    "k \<in> field_keys \<or> (k \<in> fst ` set tbs \<and> callback req = parse_unknown_cb)"
    by blast
  have "pending_key \<notin> field_keys" "base_info_key \<notin> field_keys"
    by (simp_all add: field_keys_def)
  with k assms(1) show ?thesis
    by (force simp: anchor_request_def)
qed

lemma discover_keys_not_internal:
  assumes "fst ` set tbs \<inter> internal_keys = {}"
  shows "pending_of (fst (discover esc b tbs)) \<inter> internal_keys = {}"
  using discover_pending_sub(2)[of esc b tbs] assms field_keys_not_internal by blast

lemma discover_nonempty:
  assumes "requests (snd (discover esc b tbs)) \<noteq> []"
  shows "pending_of (fst (discover esc b tbs)) \<noteq> {}"
proof -
  from assms obtain req where r: "req \<in> set (requests (snd (discover esc b tbs)))"
    by (cases "requests (snd (discover esc b tbs))") auto
  from discover_request_key(2)[OF r] r have "req_keys (requests (snd (discover esc b tbs))) \<noteq> {}"
    by (force simp: req_keys_def)
  with discover_pending_sub(1)[of esc b tbs] show ?thesis by blast
qed



lemma start_request_shape:
  assumes "start_request esc car = Inr (cd, req)"
  shows "cd = new_car_data car" "callback req = parse_first_page_cb" "meta_data_key req = None"
    "\<exists>b. car = PDict b"
  using assms
  by (auto simp: start_request_def scrapy_Request_def
      split: pyval.splits option.splits sum.splits if_splits)

section \<open>Schedules\<close>

lemma schedule_append:
  "schedule esc s (as @ bs) =
     (fst (schedule esc (fst (schedule esc s as)) bs),
      snd (schedule esc s as) @ snd (schedule esc (fst (schedule esc s as)) bs))"
  by (induction as arbitrary: s) (simp_all split: prod.splits)

lemma schedule_deliver:
  "schedule esc (cd, gen) (map Deliver evs) = ((fst (run esc cd evs), gen), snd (run esc cd evs))"
  by (induction evs arbitrary: cd) (simp_all split: prod.splits)

text \<open>
  Consuming the generator at once is the same as resuming it until no anchor is left.
\<close>

lemma parse_first_page_next_unfold:
  assumes "parse_first_page_next esc cd tbs = (cd1, gen1, out1)"
  shows "fst (parse_first_page esc cd tbs) = fst (parse_first_page esc cd1 gen1)
     \<and> requests (snd (parse_first_page esc cd tbs))
         = requests out1 @ requests (snd (parse_first_page esc cd1 gen1))
     \<and> (raised (snd (parse_first_page esc cd tbs)) = None) =
         (raised out1 = None \<and> raised (snd (parse_first_page esc cd1 gen1)) = None)
     \<and> items out1 = []"
  using assms
proof (induction tbs arbitrary: cd)
  case Nil
  then show ?case by (auto simp: nothing_def)
next
  case (Cons tab tbs)
  obtain t u where tab: "tab = (t, u)" by (cases tab)
  obtain k po where lk: "tab_lookup t = (k, po)" by (cases "tab_lookup t")
  show ?case
  proof (cases "t \<in> set [KStr ''model'', KStr ''compare''] \<or> po = None")
    case True
    then have sk: "t \<in> set [KStr ''model'', KStr ''compare''] \<or> snd (tab_lookup t) = None"
      using lk by simp
    have e: "parse_first_page esc cd (tab # tbs) = parse_first_page esc cd tbs"
      "parse_first_page_next esc cd (tab # tbs) = parse_first_page_next esc cd tbs"
      unfolding tab by (rule parse_first_page_skip[OF sk])+
    from Cons.prems have "parse_first_page_next esc cd tbs = (cd1, gen1, out1)"
      unfolding e(2) .
    from Cons.IH[OF this] show ?thesis unfolding e(1) .
  next
    case False
    then obtain p where p: "po = Some p" and nskip: "t \<notin> set [KStr ''model'', KStr ''compare'']"
      by auto
    note lk' = lk[unfolded p]
    show ?thesis
    proof (cases "pending_add cd k")
      case (Inl e)
      note f = parse_first_page_add_fails[OF nskip lk' Inl, of esc u tbs, folded tab]
      from Cons.prems have "cd1 = cd" "gen1 = []" "out1 = nothing\<lparr>raised := Some e\<rparr>"
        unfolding f(2) by simp_all
      then show ?thesis unfolding f(1) by (simp add: nothing_def)
    next
      case add: (Inr cd')
      show ?thesis
      proof (cases "scrapy_Request esc u p (Some k)")
        case (Inl e)
        note f = parse_first_page_raise[OF nskip lk' add Inl, of tbs, folded tab]
        from Cons.prems have "cd1 = cd'" "gen1 = []" "out1 = nothing\<lparr>raised := Some e\<rparr>"
          unfolding f(2) by simp_all
        then show ?thesis unfolding f(1) by (simp add: nothing_def)
      next
        case (Inr rq)
        note f = parse_first_page_yield[OF nskip lk' add Inr, of tbs, folded tab]
        from Cons.prems have "cd1 = cd'" "gen1 = tbs" "out1 = nothing\<lparr>requests := [rq]\<rparr>"
          unfolding f(2) by simp_all
        then show ?thesis unfolding f(1) by (simp add: nothing_def)
      qed
    qed
  qed
qed

lemma schedule_advance:
  assumes "schedule esc (cd, tbs) (replicate n Advance) = ((cd', []), outs)"
  shows "cd' = fst (parse_first_page esc cd tbs)
     \<and> concat (map requests outs) = requests (snd (parse_first_page esc cd tbs))
     \<and> concat (map items outs) = []
     \<and> (list_all (\<lambda>out. raised out = None) outs) = (raised (snd (parse_first_page esc cd tbs)) = None)"
  using assms
proof (induction n arbitrary: cd tbs outs)
  case 0
  then show ?case by (auto simp: nothing_def)
next
  case (Suc n)
  obtain cd1 gen1 out1 where nx: "parse_first_page_next esc cd tbs = (cd1, gen1, out1)"
    by (cases "parse_first_page_next esc cd tbs") auto
  obtain s2 outs2 where rest: "schedule esc (cd1, gen1) (replicate n Advance) = (s2, outs2)"
    by (cases "schedule esc (cd1, gen1) (replicate n Advance)") auto
  from Suc.prems have "s2 = (cd', [])" "outs = out1 # outs2"
    using nx rest by simp_all
  with rest have r: "schedule esc (cd1, gen1) (replicate n Advance) = ((cd', []), outs2)"
    by simp
  note ih = Suc.IH[OF r]
  note un = parse_first_page_next_unfold[OF nx]
  show ?case
    unfolding \<open>outs = out1 # outs2\<close> using ih un by simp
qed

section \<open>Answers with pairwise distinct keys\<close>

lemma merged_upd_pending: "merged (cd(pending_key \<mapsto> X)) = merged cd"
proof -
  have "(cd(pending_key \<mapsto> X))(pending_key := None) = cd(pending_key := None)"
    by simp
  then show ?thesis
    unfolding merged_def by (simp split: option.splits pyval.splits)
qed

lemma writes_pending:
  assumes "\<forall>ev\<in>set evs. ev_key ev \<noteq> Some pending_key"
  shows "writes (cd(pending_key \<mapsto> X)) evs = (writes cd evs)(pending_key \<mapsto> X)"
  using assms
proof (induction evs arbitrary: cd)
  case Nil
  show ?case by simp
next
  case (Cons ev evs)
  from Cons.prems have np: "\<forall>ev\<in>set evs. ev_key ev \<noteq> Some pending_key"
    by simp
  note ih = Cons.IH[OF np]
  show ?case
  proof (cases "ev_key ev")
    case None
    then show ?thesis using ih by simp
  next
    case (Some k)
    with Cons.prems have k: "k \<noteq> pending_key" by auto
    show ?thesis
    proof (cases "ev_value ev")
      case None
      then show ?thesis using Some ih by simp
    next
      case v: (Some v)
      have tw: "cd(pending_key \<mapsto> X, k \<mapsto> v) = cd(k \<mapsto> v, pending_key \<mapsto> X)"
        using k by (simp add: fun_upd_twist)
      have r: "writes (cd(k \<mapsto> v)) evs = writes cd (ev # evs)"
        using Some v by simp
      have "writes (cd(pending_key \<mapsto> X)) (ev # evs) = writes (cd(pending_key \<mapsto> X, k \<mapsto> v)) evs"
        using Some v by simp
      also have "\<dots> = writes (cd(k \<mapsto> v, pending_key \<mapsto> X)) evs"
        by (rule arg_cong[where f = "\<lambda>c. writes c evs", OF tw])
      also have "\<dots> = (writes (cd(k \<mapsto> v)) evs)(pending_key \<mapsto> X)"
        by (rule ih)
      also have "\<dots> = (writes cd (ev # evs))(pending_key \<mapsto> X)"
        by (rule arg_cong[where f = "\<lambda>m. m(pending_key \<mapsto> X)", OF r])
      finally show ?thesis .
    qed
  qed
qed

lemma writes_miss:
  assumes "\<forall>ev\<in>set evs. ev_key ev \<noteq> Some k \<or> ev_value ev = None"
  shows "writes cd evs k = cd k"
  using assms
proof (induction evs arbitrary: cd)
  case Nil
  show ?case by simp
next
  case (Cons ev evs)
  then have ih: "\<And>cd. writes cd evs k = cd k" by simp
  from Cons.prems have e: "ev_key ev \<noteq> Some k \<or> ev_value ev = None" by simp
  show ?case
  proof (cases "ev_key ev")
    case None
    then show ?thesis using ih by simp
  next
    case (Some k')
    show ?thesis
    proof (cases "ev_value ev")
      case None
      then show ?thesis using Some ih by simp
    next
      case v: (Some v)
      with e Some have "k' \<noteq> k" by auto
      then show ?thesis using Some v ih[of "cd(k' \<mapsto> v)"] by simp
    qed
  qed
qed

lemma writes_hit:
  assumes "distinct (map ev_key evs)" "ev \<in> set evs" "ev_key ev = Some k" "ev_value ev = Some v"
  shows "writes cd evs k = Some v"
  using assms
proof (induction evs arbitrary: cd)
  case Nil
  then show ?case by simp
next
  case (Cons e evs)
  from Cons.prems(1) have d: "distinct (map ev_key evs)" and n: "ev_key e \<notin> ev_key ` set evs"
    by simp_all
  show ?case
  proof (cases "e = ev")
    case True
    have "\<forall>ev'\<in>set evs. ev_key ev' \<noteq> Some k \<or> ev_value ev' = None"
      using n True Cons.prems(3) by (metis imageI)
    from writes_miss[OF this, of "cd(k \<mapsto> v)"] show ?thesis
      using True Cons.prems(3,4) by simp
  next
    case False
    with Cons.prems(2) have m: "ev \<in> set evs" by simp
    note ih = Cons.IH[OF d m Cons.prems(3,4)]
    show ?thesis
      by (cases "ev_key e"; cases "ev_value e") (simp_all add: ih)
  qed
qed

lemma writes_perm:
  assumes "distinct (map ev_key evs)" "mset evs' = mset evs"
  shows "writes cd evs' = writes cd evs"
proof (rule ext)
  fix k
  have s: "set evs' = set evs" using assms(2) by (rule mset_eq_setD)
  have "mset (map ev_key evs') = mset (map ev_key evs)"
    using arg_cong[OF assms(2), of "image_mset ev_key"] by (simp only: mset_map)
  then have d': "distinct (map ev_key evs')"
    using assms(1) mset_eq_imp_distinct_iff by blast
  show "writes cd evs' k = writes cd evs k"
  proof (cases "\<exists>ev\<in>set evs. ev_key ev = Some k \<and> ev_value ev \<noteq> None")
    case True
    then obtain ev v where ev: "ev \<in> set evs" "ev_key ev = Some k" "ev_value ev = Some v"
      by auto
    from writes_hit[OF assms(1) ev] writes_hit[OF d' _ ev(2,3)] ev(1) s show ?thesis
      by simp
  next
    case False
    then have 1: "\<forall>ev\<in>set evs. ev_key ev \<noteq> Some k \<or> ev_value ev = None" by blast
    then have 2: "\<forall>ev\<in>set evs'. ev_key ev \<noteq> Some k \<or> ev_value ev = None" using s by simp
    from writes_miss[OF 1] writes_miss[OF 2] show ?thesis by simp
  qed
qed

lemma anchor_request_key:
  assumes "anchor_request (ev_request ev)"
  obtains k where "ev_key ev = Some k" "k \<noteq> pending_key"
    "callback (ev_request ev) \<noteq> parse_first_page_cb"
  using assms by (auto simp: anchor_request_def ev_key_def split: option.splits)

lemma base_info_value:
  assumes "anchor_request (ev_request ev)" "ev_key ev = Some base_info_key" "ev_value ev = Some v"
  shows "\<exists>d. v = PDict d"
  using assms
  by (cases ev)
    (auto simp: anchor_request_def ev_key_def unknown_tab_value_def error_value_def
      split: option.splits)

lemma deliver_anchor:
  assumes "anchor_request (ev_request ev)" "ev_key ev = Some k" "ev_value ev = Some v"
    "under_assembly cd P" "k \<in> P"
  shows "fst (deliver esc cd ev) = cd(k \<mapsto> v, pending_key \<mapsto> PSet (P - {k}))"
    and "items (snd (deliver esc cd ev)) =
      (if P - {k} = {} then [PDict (merged (cd(k \<mapsto> v)))] else [])"
    and "under_assembly (cd(k \<mapsto> v, pending_key \<mapsto> PSet (P - {k}))) (P - {k})"
proof -
  from assms(1,2) have k: "k \<noteq> pending_key" "pending_key \<noteq> k"
    and cb: "callback (ev_request ev) \<noteq> parse_first_page_cb"
    by (auto simp: anchor_request_def ev_key_def split: option.splits)
  let ?cd = "cd(k \<mapsto> v, pending_key \<mapsto> PSet (P - {k}))"
  obtain b where b: "(cd(k \<mapsto> v)) base_info_key = Some (PDict b)"
  proof (cases "k = base_info_key")
    case True
    with base_info_value[OF assms(1) _ assms(3)] assms(2) obtain d where "v = PDict d" by auto
    with True that show ?thesis by simp
  next
    case False
    with assms(4) that show ?thesis by (auto simp: under_assembly_def)
  qed
  have price: "(cd(k \<mapsto> v)) (KStr ''price'') \<noteq> None"
    using assms(4) by (auto simp: under_assembly_def)
  show ua: "under_assembly ?cd (P - {k})"
    using b price k by (auto simp: under_assembly_def)
  have m: "merged (cd(k \<mapsto> v)) = (b ++ (cd(k \<mapsto> v, pending_key := None)))(base_info_key := None)"
    using b by (simp add: merged_def)
  have "merged (cd(k \<mapsto> v)) (KStr ''price'') \<noteq> None"
    unfolding m using price by (auto simp: map_add_def split: option.splits)
  then have ne: "merged (cd(k \<mapsto> v)) \<noteq> Map.empty"
    by auto
  have rem: "pending_remove (cd(k \<mapsto> v)) k = Inr ?cd"
    using assms(4,5) k by (simp add: pending_remove_def under_assembly_def)
  have upd: "?cd(pending_key := None) = cd(k \<mapsto> v, pending_key := None)"
    by simp
  have base: "(cd(k \<mapsto> v, pending_key := None)) base_info_key = Some (PDict b)"
    using b by simp
  have fin: "finalize_car_data ?cd =
      Inr (if P - {k} = {} then PDict (merged (cd(k \<mapsto> v))) else PNone)"
    unfolding finalize_car_data_def upd m using base by simp
  obtain logs where "deliver esc cd ev = remove_and_finalize (cd(k \<mapsto> v)) k logs"
    using deliver_tab[OF cb assms(2,3)] by blast
  then have d: "deliver esc cd ev =
      (?cd, \<lparr>requests = [],
             items = (if P - {k} = {} then [PDict (merged (cd(k \<mapsto> v)))] else []),
             logged = logs, raised = None\<rparr>)"
    using ne by (simp add: remove_and_finalize_def rem fin nothing_def)
  show "fst (deliver esc cd ev) = ?cd" by (simp add: d)
  show "items (snd (deliver esc cd ev)) =
      (if P - {k} = {} then [PDict (merged (cd(k \<mapsto> v)))] else [])"
    by (simp add: d)
qed

lemma run_exact:
  assumes "under_assembly cd P"
    and "\<forall>ev\<in>set evs. anchor_request (ev_request ev) \<and> ev_value ev \<noteq> None"
    and "distinct (map ev_key evs)" "P = ev_keys evs" "evs \<noteq> []"
  shows "emitted (run esc cd evs) = [PDict (merged (writes cd evs))]"
  using assms
proof (induction evs arbitrary: cd P)
  case Nil
  then show ?case by simp
next
  case (Cons ev evs)
  from Cons.prems(2) have ar: "anchor_request (ev_request ev)"
    and ars: "\<forall>ev\<in>set evs. anchor_request (ev_request ev) \<and> ev_value ev \<noteq> None"
    and "ev_value ev \<noteq> None" by simp_all
  then obtain v where v: "ev_value ev = Some v" by auto
  from ar obtain k where k: "ev_key ev = Some k" "k \<noteq> pending_key"
    by (rule anchor_request_key)
  from Cons.prems(3) have d: "distinct (map ev_key evs)" and n: "Some k \<notin> ev_key ` set evs"
    using k(1) by simp_all
  have nk: "k \<notin> ev_keys evs"
    using n by (force simp: ev_keys_def)
  have P: "P = insert k (ev_keys evs)"
    using Cons.prems(4) by (simp add: ev_keys_Cons[OF k(1) v])
  then have kP: "k \<in> P" and P': "P - {k} = ev_keys evs"
    using nk by auto
  let ?cd = "cd(k \<mapsto> v, pending_key \<mapsto> PSet (P - {k}))"
  note dl = deliver_anchor[OF ar k(1) v Cons.prems(1) kP]
  have w: "writes cd (ev # evs) = writes (cd(k \<mapsto> v)) evs"
    using k(1) v by simp
  show ?case
  proof (cases "evs = []")
    case True
    then have "P - {k} = {}" using P' by (simp add: ev_keys_Nil)
    then have "items (snd (deliver esc cd ev)) = [PDict (merged (cd(k \<mapsto> v)))]"
      using dl(2) by simp
    moreover have "[PDict (merged (writes cd [ev]))] = [PDict (merged (cd(k \<mapsto> v)))]"
      using k(1) v by simp
    moreover have "emitted (run esc cd [ev]) = items (snd (deliver esc cd ev))"
      by (simp add: emitted_def split: prod.splits)
    ultimately show ?thesis
      using True by simp
  next
    case False
    then obtain e where e: "e \<in> set evs" by (cases evs) auto
    with ars obtain k' where "ev_key e = Some k'" "ev_value e \<noteq> None"
      by (auto elim: anchor_request_key)
    with e have "k' \<in> ev_keys evs" by (rule ev_keys_I)
    then have ne: "P - {k} \<noteq> {}" using P' by auto
    have np: "\<forall>ev\<in>set evs. ev_key ev \<noteq> Some pending_key"
      using ars by (auto simp: anchor_request_def ev_key_def split: option.splits)
    have "emitted (run esc ?cd evs) = [PDict (merged (writes ?cd evs))]"
      by (rule Cons.IH[OF dl(3) ars d P' False])
    also have "writes ?cd evs = (writes (cd(k \<mapsto> v)) evs)(pending_key \<mapsto> PSet (P - {k}))"
      by (rule writes_pending[OF np])
    finally have "emitted (run esc ?cd evs) = [PDict (merged (writes (cd(k \<mapsto> v)) evs))]"
      by (simp only: merged_upd_pending)
    then show ?thesis
      unfolding emitted_Cons dl(1) dl(2) w using ne by simp
  qed
qed

lemma ev_keys_req_keys:
  assumes "\<forall>ev\<in>set evs. ev_value ev \<noteq> None"
  shows "ev_keys evs = req_keys (map ev_request evs)"
proof -
  have "(\<exists>ev\<in>set evs. ev_key ev = Some k \<and> ev_value ev \<noteq> None)
      = (Some k \<in> meta_data_key ` set (map ev_request evs))" for k
    using assms by (force simp: ev_key_def)
  then show ?thesis
    by (simp add: ev_keys_def req_keys_def)
qed


lemma distinct_ev_keys:
  assumes "mset (map ev_request evs) = mset reqs" "distinct (map meta_data_key reqs)"
  shows "distinct (map ev_key evs)"
proof -
  have "map ev_key evs = map meta_data_key (map ev_request evs)"
    by (simp add: ev_key_def)
  moreover have "mset (map meta_data_key (map ev_request evs)) = mset (map meta_data_key reqs)"
    using arg_cong[OF assms(1), of "image_mset meta_data_key"] by (simp only: mset_map)
  ultimately have "mset (map ev_key evs) = mset (map meta_data_key reqs)"
    by (simp only:)
  then show ?thesis
    using assms(2) mset_eq_imp_distinct_iff by blast
qed

lemma discover_under_assembly:
  "under_assembly (fst (discover esc b tbs)) (pending_of (fst (discover esc b tbs)))"
  by (subst discover_pending) (simp add: under_assembly_def new_car_data_def)

text \<open>
  After a discovery that ended without an exception and found at least one tab, with
  pairwise distinct keys: one answer with a value for every request gives one record,
  whatever the order.
\<close>

lemma discovered_exact:
  assumes "pending_key \<notin> fst ` set tbs"
    and "raised (snd (discover esc b tbs)) = None"
    and "requests (snd (discover esc b tbs)) \<noteq> []"
    and "distinct (map meta_data_key (requests (snd (discover esc b tbs))))"
    and "mset (map ev_request evs) = mset (requests (snd (discover esc b tbs)))"
    and "\<forall>ev\<in>set evs. ev_value ev \<noteq> None"
  shows "emitted (run esc (fst (discover esc b tbs)) evs)
      = [PDict (merged (writes (fst (discover esc b tbs)) evs))]"
proof -
  let ?cd = "fst (discover esc b tbs)"
  let ?reqs = "requests (snd (discover esc b tbs))"
  have sets: "set (map ev_request evs) = set ?reqs"
    using assms(5) by (rule mset_eq_setD)
  have ar: "\<forall>ev\<in>set evs. anchor_request (ev_request ev) \<and> ev_value ev \<noteq> None"
    using sets discover_anchor_request[OF assms(1)] assms(6) by auto
  have keys: "pending_of ?cd = ev_keys evs"
    unfolding ev_keys_req_keys[OF assms(6)] discover_pending_eq[OF assms(2)]
    by (rule req_keys_set[OF sets[symmetric]])
  have ne: "evs \<noteq> []"
    using assms(3,5) by auto
  show ?thesis
    by (rule run_exact[OF discover_under_assembly ar distinct_ev_keys[OF assms(5,4)] keys ne])
qed

section \<open>Discovery consumed before the first completion event\<close>

lemma discovery_first_run:
  assumes "schedule esc (first_page b tbs) (replicate n Advance) = ((cd, []), outs)"
  shows "cd = fst (discover esc b tbs)"
    and "concat (map requests outs) = requests (snd (discover esc b tbs))"
    and "(\<forall>out\<in>set outs. raised out = None) = (raised (snd (discover esc b tbs)) = None)"
    and "emitted (schedule esc (first_page b tbs) (discovery_first n evs)) = emitted (run esc cd evs)"
    and "fst (fst (schedule esc (first_page b tbs) (discovery_first n evs))) = fst (run esc cd evs)"
proof -
  note a = schedule_advance[OF assms[unfolded first_page_def], folded discover_def]
  show "cd = fst (discover esc b tbs)" using a by simp
  show "concat (map requests outs) = requests (snd (discover esc b tbs))" using a by simp
  show "(\<forall>out\<in>set outs. raised out = None) = (raised (snd (discover esc b tbs)) = None)"
    using a by (simp add: list_all_iff)
  have s: "schedule esc (first_page b tbs) (discovery_first n evs) =
      ((fst (run esc cd evs), []), outs @ snd (run esc cd evs))"
    unfolding discovery_first_def schedule_append assms by (simp add: schedule_deliver)
  show "emitted (schedule esc (first_page b tbs) (discovery_first n evs)) = emitted (run esc cd evs)"
    unfolding s using a by (simp add: emitted_def)
  show "fst (fst (schedule esc (first_page b tbs) (discovery_first n evs))) = fst (run esc cd evs)"
    unfolding s by simp
qed


section \<open>The sample car\<close>

lemma sample_start_request:
  "start_request plain (PDict ex_base) = Inr (new_car_data (PDict ex_base), rq_first)"
  by (simp add: start_request_def ex_base_def rq_first_def py_replace_def scrapy_Request_def
      has_scheme_def plain_def)


lemma sample_schedule:
  "schedule plain (first_page ex_base tabs_price_specs) (replicate 2 Advance) =
     (((new_car_data (PDict ex_base))(pending_key \<mapsto> PSet {KStr ''price'', KStr ''specifications''}), []),
      [\<lparr>requests = [rq_price], items = [], logged = [], raised = None\<rparr>,
       \<lparr>requests = [rq_specs], items = [], logged = [], raised = None\<rparr>])"
  by (simp add: spider_defs sample_defs insert_commute numeral_2_eq_2)

lemma sample_tabs_not_internal: "fst ` set tabs_price_specs \<inter> internal_keys = {}"
  by (simp add: tabs_price_specs_def internal_keys_def)

lemma sample_tabs_no_pending_key: "pending_key \<notin> fst ` set tabs_price_specs"
  by (simp add: tabs_price_specs_def)

lemma mileage_range_differ: "mileage_value \<noteq> range_value"
proof
  assume "mileage_value = range_value"
  then have "[KStr ''overview'' \<mapsto> PStr ''24.9 kmpl''] (KStr ''overview'')
      = [KStr ''overview'' \<mapsto> PStr ''315 km''] (KStr ''overview'')"
    unfolding mileage_value_def range_value_def by (metis pyval.inject(5))
  then show False by simp
qed

section \<open>An anchor with the id of the base info\<close>


section \<open>The claims\<close>

subsection \<open>C1\<close>

text \<open>
  Claim C1, as the code has it. Take a car whose first page has no tab anchor with the
  id \<open>_pending_tabs\<close> and whose generator \<open>parse_first_page\<close> has been consumed to its
  end, without an exception, before any completion event is handled: \<open>n\<close> resumptions
  leave no anchor, and the requests they yielded are at least one and have pairwise
  distinct field keys. Once every request has had its one completion event, a failure
  of the fetch or a response whose extractor returns a value, exactly one record has
  been emitted, and it is the same record for every order of the events.
\<close>

theorem C1_one_record_in_any_order:
  assumes "schedule esc (first_page b tbs) (replicate n Advance) = ((cd, []), outs)"
    and "\<forall>out\<in>set outs. raised out = None"
    and "pending_key \<notin> fst ` set tbs"
    and "concat (map requests outs) \<noteq> []"
    and "distinct (map meta_data_key (concat (map requests outs)))"
    and "mset (map ev_request evs) = mset (concat (map requests outs))"
    and "\<forall>ev\<in>set evs. ev_value ev \<noteq> None"
    and "mset evs' = mset evs"
  shows "\<exists>r. emitted (schedule esc (first_page b tbs) (discovery_first n evs)) = [r] \<and>
             emitted (schedule esc (first_page b tbs) (discovery_first n evs')) = [r]"
proof -
  let ?cd = "fst (discover esc b tbs)"
  let ?reqs = "requests (snd (discover esc b tbs))"
  note d = discovery_first_run[OF assms(1)]
  have r: "raised (snd (discover esc b tbs)) = None"
    using d(3) assms(2) by simp
  have ne: "?reqs \<noteq> []"
    using assms(4) unfolding d(2) .
  have dist: "distinct (map meta_data_key ?reqs)"
    using assms(5) unfolding d(2) .
  have m: "mset (map ev_request evs) = mset ?reqs"
    using assms(6) unfolding d(2) .
  have m': "mset (map ev_request evs') = mset ?reqs"
    using arg_cong[OF assms(8), of "image_mset ev_request"] m by (simp only: mset_map)
  have v': "\<forall>ev\<in>set evs'. ev_value ev \<noteq> None"
    using assms(7) mset_eq_setD[OF assms(8)] by simp
  have e: "emitted (run esc ?cd evs) = [PDict (merged (writes ?cd evs))]"
    by (rule discovered_exact[OF assms(3) r ne dist m assms(7)])
  have "emitted (run esc ?cd evs') = [PDict (merged (writes ?cd evs'))]"
    by (rule discovered_exact[OF assms(3) r ne dist m' v'])
  also have "\<dots> = [PDict (merged (writes ?cd evs))]"
    by (rule arg_cong[where f = "\<lambda>w. [PDict (merged w)]",
          OF writes_perm[OF distinct_ev_keys[OF m dist] assms(8)]])
  finally have e': "emitted (run esc ?cd evs') = [PDict (merged (writes ?cd evs))]" .
  have "emitted (schedule esc (first_page b tbs) (discovery_first n evs))
      = [PDict (merged (writes ?cd evs))]"
    using d(4)[of evs] e arg_cong[OF d(1), of "\<lambda>c. emitted (run esc c evs)"] by simp
  moreover have "emitted (schedule esc (first_page b tbs) (discovery_first n evs'))
      = [PDict (merged (writes ?cd evs))]"
    using d(4)[of evs'] e' arg_cong[OF d(1), of "\<lambda>c. emitted (run esc c evs')"] by simp
  ultimately show ?thesis by simp
qed

text \<open>
  The scenario of the sample car: both anchors are followed, then \<open>price\<close> answers and
  \<open>specs\<close> fails, in both orders.
\<close>

theorem C1_one_record_in_any_order_witness:
  "\<exists>r. emitted (schedule plain (first_page ex_base tabs_price_specs)
            (discovery_first 2 [ok rq_price price_value, Failure rq_specs ''timeout''])) = [r] \<and>
        emitted (schedule plain (first_page ex_base tabs_price_specs)
            (discovery_first 2 [Failure rq_specs ''timeout'', ok rq_price price_value])) = [r]"
proof -
  let ?outs = "[\<lparr>requests = [rq_price], items = [], logged = [], raised = None\<rparr>,
       \<lparr>requests = [rq_specs], items = [], logged = [], raised = None\<rparr>]"
  have h2: "\<forall>out\<in>set ?outs. raised out = None"
    by simp
  have h4: "concat (map requests ?outs) \<noteq> []"
    by simp
  have h5: "distinct (map meta_data_key (concat (map requests ?outs)))"
    by (simp add: rq_price_def rq_specs_def)
  have h6: "mset (map ev_request [ok rq_price price_value, Failure rq_specs ''timeout''])
      = mset (concat (map requests ?outs))"
    by (simp add: ok_def)
  have h7: "\<forall>ev\<in>set [ok rq_price price_value, Failure rq_specs ''timeout'']. ev_value ev \<noteq> None"
    by (simp add: ok_def rq_price_def)
  have h8: "mset [Failure rq_specs ''timeout'', ok rq_price price_value]
      = mset [ok rq_price price_value, Failure rq_specs ''timeout'']"
    by simp
  show ?thesis
    by (rule C1_one_record_in_any_order[OF sample_schedule h2 sample_tabs_no_pending_key
          h4 h5 h6 h7 h8])
qed

text \<open>
  Claim C1 as stated covers every car and every arrival order. A first page with both
  a \<open>mileage\<close> and a \<open>range\<close> anchor gives two requests with the one key \<open>mileage\<close>, and
  the emitted record holds the value of whichever answer comes first. A first page
  without tabs gives no request, and no record at all. When the answer for \<open>price\<close> is
  handled before the generator is resumed for the \<open>specs\<close> anchor, two records are
  emitted.
\<close>

theorem C1_counterexample:
  "yielded (schedule plain (first_page ex_base tabs_mileage_range) (replicate 2 Advance))
     = [rq_mileage, rq_range]
   \<and> emitted (schedule plain (first_page ex_base tabs_mileage_range)
        (discovery_first 2 [ok rq_mileage mileage_value, ok rq_range range_value]))
     \<noteq> emitted (schedule plain (first_page ex_base tabs_mileage_range)
        (discovery_first 2 [ok rq_range range_value, ok rq_mileage mileage_value]))
   \<and> yielded (schedule plain (first_page ex_base []) (replicate 0 Advance)) = []
   \<and> emitted (schedule plain (first_page ex_base []) (discovery_first 0 [])) = []
   \<and> length (emitted (schedule plain (first_page ex_base tabs_price_specs)
        [Advance, Deliver (ok rq_price price_value),
         Advance, Deliver (ok rq_specs specs_value)])) = 2"
proof -
  have 1: "yielded (schedule plain (first_page ex_base tabs_mileage_range) (replicate 2 Advance))
     = [rq_mileage, rq_range]"
    by (simp add: spider_defs sample_defs numeral_2_eq_2)
  have a: "map (field (KStr ''mileage''))
      (emitted (schedule plain (first_page ex_base tabs_mileage_range)
        (discovery_first 2 [ok rq_mileage mileage_value, ok rq_range range_value])))
      = [Some mileage_value]"
    by (simp add: spider_defs rq_mileage_def rq_range_def tabs_mileage_range_def ok_def field_def
        upd_None_nonempty numeral_2_eq_2)
  have b: "map (field (KStr ''mileage''))
      (emitted (schedule plain (first_page ex_base tabs_mileage_range)
        (discovery_first 2 [ok rq_range range_value, ok rq_mileage mileage_value])))
      = [Some range_value]"
    by (simp add: spider_defs rq_mileage_def rq_range_def tabs_mileage_range_def ok_def field_def
        upd_None_nonempty numeral_2_eq_2)
  have 2: "emitted (schedule plain (first_page ex_base tabs_mileage_range)
        (discovery_first 2 [ok rq_mileage mileage_value, ok rq_range range_value]))
     \<noteq> emitted (schedule plain (first_page ex_base tabs_mileage_range)
        (discovery_first 2 [ok rq_range range_value, ok rq_mileage mileage_value]))"
  proof
    assume "emitted (schedule plain (first_page ex_base tabs_mileage_range)
        (discovery_first 2 [ok rq_mileage mileage_value, ok rq_range range_value]))
     = emitted (schedule plain (first_page ex_base tabs_mileage_range)
        (discovery_first 2 [ok rq_range range_value, ok rq_mileage mileage_value]))"
    with a b have "[Some mileage_value] = [Some range_value]" by simp
    with mileage_range_differ show False by simp
  qed
  have 3: "yielded (schedule plain (first_page ex_base []) (replicate 0 Advance)) = []"
    by (simp add: yielded_def)
  have 4: "emitted (schedule plain (first_page ex_base []) (discovery_first 0 [])) = []"
    by (simp add: emitted_def discovery_first_def)
  have 5: "length (emitted (schedule plain (first_page ex_base tabs_price_specs)
        [Advance, Deliver (ok rq_price price_value),
         Advance, Deliver (ok rq_specs specs_value)])) = 2"
    by (simp add: spider_defs rq_price_def rq_specs_def tabs_price_specs_def ok_def
        upd_None_nonempty)
  from 1 2 3 4 5 show ?thesis by blast
qed

subsection \<open>C2\<close>

text \<open>
  Claim C2, as the code has it. An event for a key that is not in the pending set
  (already resolved, or a duplicate) leaves the pending set as it is and yields no
  record, but it is not dropped: the callback ends with an exception. When the event
  has a value (a failure of the fetch, or a response whose extractor returns), the
  value is stored under its key and \<open>set.remove\<close> then raises \<open>KeyError\<close>; when the
  extractor raises, \<open>car_data\<close> is left as it was.
\<close>

theorem C2_stale_event_overwrites_and_raises:
  assumes "assembling cd P b" "tab_request (ev_request ev)" "ev_key ev = Some k" "k \<notin> P"
  shows "fst (deliver esc cd ev) = (case ev_value ev of None \<Rightarrow> cd | Some v \<Rightarrow> cd(k \<mapsto> v)) \<and>
     fst (deliver esc cd ev) pending_key = Some (PSet P) \<and>
     items (snd (deliver esc cd ev)) = [] \<and>
     raised (snd (deliver esc cd ev)) \<noteq> None \<and>
     (ev_value ev \<noteq> None \<longrightarrow> raised (snd (deliver esc cd ev)) = Some KeyError)"
proof (cases "ev_value ev")
  case None
  from assms(2) have cb: "callback (ev_request ev) \<noteq> parse_first_page_cb"
    by (simp add: tab_request_def)
  note d = deliver_raising[OF cb assms(3) None, of esc cd]
  have "fst (deliver esc cd ev) pending_key = Some (PSet P)"
    using assms(1) by (simp add: d(1) assembling_def)
  with d None show ?thesis by simp
next
  case (Some v)
  note d = deliver_stale[OF assms(2,3) Some assms(1,4), of esc]
  from assms(2,3) have "k \<noteq> pending_key"
    by (auto simp: tab_request_def ev_key_def internal_keys_def)
  then have "fst (deliver esc cd ev) pending_key = Some (PSet P)"
    using assms(1) by (simp add: d(1) assembling_def)
  with d Some show ?thesis by simp
qed

text \<open>A \<open>price\<close> answer for the sample car while nothing is pending.\<close>

theorem C2_stale_event_overwrites_and_raises_witness:
  "assembling (new_car_data (PDict ex_base)) {} ex_base \<and>
   tab_request (ev_request (ok rq_price price_value)) \<and>
   ev_key (ok rq_price price_value) = Some (KStr ''price'') \<and>
   KStr ''price'' \<notin> {} \<and>
   ev_value (ok rq_price price_value) = Some price_value \<and>
   fst (deliver plain (new_car_data (PDict ex_base)) (ok rq_price price_value)) =
     (new_car_data (PDict ex_base))(KStr ''price'' \<mapsto> price_value) \<and>
   fst (deliver plain (new_car_data (PDict ex_base)) (ok rq_price price_value)) pending_key
     = Some (PSet {}) \<and>
   items (snd (deliver plain (new_car_data (PDict ex_base)) (ok rq_price price_value))) = [] \<and>
   raised (snd (deliver plain (new_car_data (PDict ex_base)) (ok rq_price price_value)))
     = Some KeyError"
proof -
  have h1: "assembling (new_car_data (PDict ex_base)) {} ex_base"
    by (simp add: assembling_def new_car_data_def)
  have h2: "tab_request (ev_request (ok rq_price price_value))"
    by (simp add: tab_request_def ok_def rq_price_def internal_keys_def)
  have h3: "ev_key (ok rq_price price_value) = Some (KStr ''price'')"
    by (simp add: ev_key_def ok_def rq_price_def)
  have h4: "KStr ''price'' \<notin> {}"
    by simp
  have v: "ev_value (ok rq_price price_value) = Some price_value"
    by (simp add: ok_def rq_price_def)
  note c = C2_stale_event_overwrites_and_raises[OF h1 h2 h3 h4, of plain]
  have c1: "fst (deliver plain (new_car_data (PDict ex_base)) (ok rq_price price_value)) =
     (new_car_data (PDict ex_base))(KStr ''price'' \<mapsto> price_value)"
    using c[THEN conjunct1] by (simp only: v option.case)
  have c2: "fst (deliver plain (new_car_data (PDict ex_base)) (ok rq_price price_value)) pending_key
     = Some (PSet {})"
    using c by blast
  have c3: "items (snd (deliver plain (new_car_data (PDict ex_base)) (ok rq_price price_value))) = []"
    using c by blast
  have c4: "raised (snd (deliver plain (new_car_data (PDict ex_base)) (ok rq_price price_value)))
     = Some KeyError"
    using c v by blast
  from h1 h2 h3 h4 v c1 c2 c3 c4 show ?thesis
    by blast
qed

text \<open>
  Claim C2 as stated makes such an event a no-op that is dropped with a warning. After
  both tabs of the sample car are answered, a second answer for \<open>price\<close> changes
  \<open>car_data\<close>, raises \<open>KeyError\<close> and logs nothing.
\<close>

theorem C2_counterexample:
  "fst (deliver plain (fst (run plain (fst (discover plain ex_base tabs_price_specs))
          [ok rq_price price_value, ok rq_specs specs_value]))
        (ok rq_price (PStr ''late'')))
     \<noteq> fst (run plain (fst (discover plain ex_base tabs_price_specs))
          [ok rq_price price_value, ok rq_specs specs_value])
   \<and> raised (snd (deliver plain (fst (run plain (fst (discover plain ex_base tabs_price_specs))
          [ok rq_price price_value, ok rq_specs specs_value]))
        (ok rq_price (PStr ''late'')))) = Some KeyError
   \<and> logged (snd (deliver plain (fst (run plain (fst (discover plain ex_base tabs_price_specs))
          [ok rq_price price_value, ok rq_specs specs_value]))
        (ok rq_price (PStr ''late'')))) = []"
proof -
  let ?cd = "fst (run plain (fst (discover plain ex_base tabs_price_specs))
          [ok rq_price price_value, ok rq_specs specs_value])"
  have cd: "?cd = (new_car_data (PDict ex_base))
      (KStr ''price'' \<mapsto> price_value, KStr ''specifications'' \<mapsto> specs_value,
       pending_key \<mapsto> PSet {})"
    by (simp add: spider_defs rq_price_def rq_specs_def tabs_price_specs_def ok_def fun_eq_iff)
  have d: "deliver plain ?cd (ok rq_price (PStr ''late'')) =
      (?cd(KStr ''price'' \<mapsto> PStr ''late''),
       \<lparr>requests = [], items = [], logged = [], raised = Some KeyError\<rparr>)"
    unfolding cd by (simp add: spider_defs rq_price_def ok_def)
  have "(?cd(KStr ''price'' \<mapsto> PStr ''late'')) (KStr ''price'') \<noteq> ?cd (KStr ''price'')"
    unfolding cd by (simp add: price_value_def)
  then have "?cd(KStr ''price'' \<mapsto> PStr ''late'') \<noteq> ?cd"
    by metis
  then show ?thesis unfolding d by simp
qed

subsection \<open>C3\<close>

text \<open>
  Claim C3 at two first pages. \<open>finalize_car_data\<close> is documented to check that all tabs
  are processed, and emits when the pending set is empty. With a \<open>mileage\<close> and a
  \<open>range\<close> anchor the two requests share the key \<open>mileage\<close>: the record is emitted after
  the first of the two completion events. With a \<open>price\<close> and a \<open>specs\<close> anchor, when the
  answer for \<open>price\<close> is handled before the generator is resumed for the \<open>specs\<close> anchor,
  the pending set is empty at that answer: a record is emitted before \<open>specs\<close> is
  processed, and a second record after it.
\<close>

theorem C3_record_before_all_tabs_processed:
  "yielded (schedule plain (first_page ex_base tabs_mileage_range) [Advance, Advance])
     = [rq_mileage, rq_range]
   \<and> length (emitted (schedule plain (first_page ex_base tabs_mileage_range)
        [Advance, Advance, Deliver (ok rq_mileage mileage_value)])) = 1
   \<and> length (emitted (schedule plain (first_page ex_base tabs_price_specs)
        [Advance, Deliver (ok rq_price price_value)])) = 1
   \<and> length (emitted (schedule plain (first_page ex_base tabs_price_specs)
        [Advance, Deliver (ok rq_price price_value),
         Advance, Deliver (ok rq_specs specs_value)])) = 2"
proof -
  have 1: "yielded (schedule plain (first_page ex_base tabs_mileage_range) [Advance, Advance])
     = [rq_mileage, rq_range]"
    by (simp add: spider_defs sample_defs)
  have 2: "length (emitted (schedule plain (first_page ex_base tabs_mileage_range)
        [Advance, Advance, Deliver (ok rq_mileage mileage_value)])) = 1"
    by (simp add: spider_defs rq_mileage_def tabs_mileage_range_def ok_def upd_None_nonempty)
  have 3: "length (emitted (schedule plain (first_page ex_base tabs_price_specs)
        [Advance, Deliver (ok rq_price price_value)])) = 1"
    by (simp add: spider_defs rq_price_def tabs_price_specs_def ok_def upd_None_nonempty)
  have 4: "length (emitted (schedule plain (first_page ex_base tabs_price_specs)
        [Advance, Deliver (ok rq_price price_value),
         Advance, Deliver (ok rq_specs specs_value)])) = 2"
    by (simp add: spider_defs rq_price_def rq_specs_def tabs_price_specs_def ok_def
        upd_None_nonempty)
  from 1 2 3 4 show ?thesis by blast
qed

subsection \<open>C4\<close>




subsection \<open>C5\<close>

text \<open>
  Claim C5, as the code has it. When discovery ends without an exception and yields no
  request (the first page shows no tab anchor, or only the skipped \<open>model\<close> and
  \<open>compare\<close> anchors), \<open>parse_first_page\<close> yields no request and no item, logs nothing,
  and leaves \<open>car_data\<close> as \<open>start_requests\<close> built it. No record is emitted for that
  car: \<open>finalize_car_data\<close> is only called when a tab request is answered, and there is
  none.
\<close>

theorem C5_no_tabs_nothing_emitted:
  assumes "requests (snd (discover esc b tbs)) = []"
    and "raised (snd (discover esc b tbs)) = None"
  shows "discover esc b tbs =
     (new_car_data (PDict b), \<lparr>requests = [], items = [], logged = [], raised = None\<rparr>)"
proof (rule prod_eqI)
  have "pending_of (fst (discover esc b tbs)) = {}"
    using discover_pending_eq[OF assms(2)] assms(1) by (simp add: req_keys_Nil)
  then have "fst (discover esc b tbs) k = new_car_data (PDict b) k" for k
    by (subst discover_pending) (simp add: new_car_data_def)
  then have "fst (discover esc b tbs) = new_car_data (PDict b)"
    by (rule ext)
  then show "fst (discover esc b tbs) =
     fst (new_car_data (PDict b), \<lparr>requests = [], items = [], logged = [], raised = None\<rparr>)"
    by (simp only: fst_conv)
  show "snd (discover esc b tbs) =
     snd (new_car_data (PDict b), \<lparr>requests = [], items = [], logged = [], raised = None\<rparr>)"
    using assms discover_quiet[of esc b tbs] by (cases "snd (discover esc b tbs)") simp
qed

text \<open>A first page whose only anchor is the skipped \<open>model\<close> tab.\<close>

theorem C5_no_tabs_nothing_emitted_witness:
  "requests (snd (discover plain ex_base [(KStr ''model'', ''http://x/alto/model'')])) = [] \<and>
   raised (snd (discover plain ex_base [(KStr ''model'', ''http://x/alto/model'')])) = None \<and>
   discover plain ex_base [(KStr ''model'', ''http://x/alto/model'')] =
     (new_car_data (PDict ex_base), \<lparr>requests = [], items = [], logged = [], raised = None\<rparr>)"
proof -
  have h: "requests (snd (discover plain ex_base [(KStr ''model'', ''http://x/alto/model'')])) = []"
    by (simp add: discover_def nothing_def)
  have h': "raised (snd (discover plain ex_base [(KStr ''model'', ''http://x/alto/model'')])) = None"
    by (simp add: discover_def nothing_def)
  show ?thesis
    using h h' C5_no_tabs_nothing_emitted[OF h h'] by simp
qed

text \<open>
  Claim C5 as stated asks for a record with the base fields at once; the first page of
  the sample car without any tab anchor yields no item.
\<close>

theorem C5_counterexample:
  "items (snd (deliver plain (new_car_data (PDict ex_base))
      (Response \<lparr>resp_request = rq_first, tabs = [], extracted = Inr PNone\<rparr>))) = []"
  by (simp add: rq_first_def nothing_def)

subsection \<open>C6\<close>




subsection \<open>C7\<close>

text \<open>
  Claim C7, as the code has it. Take a car whose first page has no tab anchor with the
  id \<open>base_info\<close> or \<open>_pending_tabs\<close> and whose generator \<open>parse_first_page\<close> has been
  consumed to its end, without an exception, before any completion event is handled,
  with at least one request yielded. When the fetch of every request fails, so that
  \<open>handle_error\<close> is called once for each, exactly one record is emitted, and under
  each discovered field key it holds the error placeholder of a failure event for that
  key: the error text and the URL of the failed request.
\<close>

theorem C7_all_failures_still_emit:
  assumes "schedule esc (first_page b tbs) (replicate n Advance) = ((cd, []), outs)"
    and "\<forall>out\<in>set outs. raised out = None"
    and "fst ` set tbs \<inter> internal_keys = {}"
    and "concat (map requests outs) \<noteq> []"
    and "mset (map ev_request evs) = mset (concat (map requests outs))"
    and "\<forall>ev\<in>set evs. is_failure ev"
  shows "\<exists>r. emitted (schedule esc (first_page b tbs) (discovery_first n evs)) = [PDict r] \<and>
     (\<forall>k\<in>req_keys (concat (map requests outs)).
        \<exists>req err. Failure req err \<in> set evs \<and> meta_data_key req = Some k \<and>
          r k = Some (PDict [KStr ''error'' \<mapsto> PStr err, KStr ''url'' \<mapsto> PStr (url req)]))"
proof -
  let ?cd = "fst (discover esc b tbs)"
  let ?reqs = "requests (snd (discover esc b tbs))"
  let ?P = "pending_of ?cd"
  note d = discovery_first_run[OF assms(1)]
  have nr: "raised (snd (discover esc b tbs)) = None"
    using d(3) assms(2) by simp
  have ne0: "?reqs \<noteq> []"
    using assms(4) unfolding d(2) .
  have m: "mset (map ev_request evs) = mset ?reqs"
    using assms(5) unfolding d(2) .
  have as: "assembling ?cd ?P b" by (rule discover_assembling)
  have ne: "?P \<noteq> {}" by (rule discover_nonempty[OF ne0])
  have P: "?P = req_keys ?reqs" by (rule discover_pending_eq[OF nr])
  have sets: "set (map ev_request evs) = set ?reqs"
    using m by (rule mset_eq_setD)
  have tr: "\<forall>ev\<in>set evs. tab_request (ev_request ev)"
    using sets discover_tab_request[OF assms(3)] by auto
  have val: "\<forall>ev\<in>set evs. ev_value ev \<noteq> None"
  proof
    fix ev assume "ev \<in> set evs"
    with assms(6) have "is_failure ev" by blast
    then show "ev_value ev \<noteq> None" by (cases ev) simp_all
  qed
  have keys: "ev_keys evs = ?P"
    unfolding ev_keys_req_keys[OF val] P by (rule req_keys_set[OF sets])
  from run_complete[OF as tr ne, of esc] keys
  obtain r where r: "emitted (run esc ?cd evs) = [PDict r]" "record_of b ?cd ?P evs r"
    by auto
  have "\<exists>req err. Failure req err \<in> set evs \<and> meta_data_key req = Some k \<and>
          r k = Some (PDict [KStr ''error'' \<mapsto> PStr err, KStr ''url'' \<mapsto> PStr (url req)])"
    if k: "k \<in> ?P" for k
  proof -
    from k discover_keys_not_internal[OF assms(3), of esc b] have "k \<notin> internal_keys" by blast
    with r(2) k obtain ev where ev: "ev \<in> set evs" "ev_key ev = Some k" "r k = ev_value ev"
      unfolding record_of_def by blast
    from assms(6) ev(1) obtain req err where f: "ev = Failure req err"
      by (cases ev) auto
    with ev show ?thesis
      by (auto simp: ev_key_def error_value_def)
  qed
  then have fields: "\<forall>k\<in>req_keys (concat (map requests outs)).
        \<exists>req err. Failure req err \<in> set evs \<and> meta_data_key req = Some k \<and>
          r k = Some (PDict [KStr ''error'' \<mapsto> PStr err, KStr ''url'' \<mapsto> PStr (url req)])"
    unfolding d(2) P by blast
  have "emitted (schedule esc (first_page b tbs) (discovery_first n evs)) = [PDict r]"
    using d(4)[of evs] r(1) arg_cong[OF d(1), of "\<lambda>c. emitted (run esc c evs)"] by simp
  with fields show ?thesis by blast
qed

text \<open>The sample car with both tabs failing.\<close>

theorem C7_all_failures_still_emit_witness:
  "\<exists>r. emitted (schedule plain (first_page ex_base tabs_price_specs)
            (discovery_first 2 [Failure rq_specs ''timeout'', Failure rq_price ''DNS lookup failed'']))
          = [PDict r] \<and>
     r (KStr ''price'') = Some (PDict [KStr ''error'' \<mapsto> PStr ''DNS lookup failed'',
                                      KStr ''url'' \<mapsto> PStr ''http://x/alto/price'']) \<and>
     r (KStr ''specifications'') = Some (PDict [KStr ''error'' \<mapsto> PStr ''timeout'',
                                      KStr ''url'' \<mapsto> PStr ''http://x/alto/specs''])"
proof -
  let ?evs = "[Failure rq_specs ''timeout'', Failure rq_price ''DNS lookup failed'']"
  let ?outs = "[\<lparr>requests = [rq_price], items = [], logged = [], raised = None\<rparr>,
       \<lparr>requests = [rq_specs], items = [], logged = [], raised = None\<rparr>]"
  have h2: "\<forall>out\<in>set ?outs. raised out = None"
    by simp
  have h4: "concat (map requests ?outs) \<noteq> []"
    by simp
  have h5: "mset (map ev_request ?evs) = mset (concat (map requests ?outs))"
    by simp
  have h6: "\<forall>ev\<in>set ?evs. is_failure ev"
    by simp
  have P: "req_keys (concat (map requests ?outs)) = {KStr ''price'', KStr ''specifications''}"
    by (auto simp: req_keys_def rq_price_def rq_specs_def)
  from C7_all_failures_still_emit[OF sample_schedule h2 sample_tabs_not_internal h4 h5 h6]
  obtain r where r: "emitted (schedule plain (first_page ex_base tabs_price_specs)
        (discovery_first 2 ?evs)) = [PDict r]"
    "\<forall>k\<in>{KStr ''price'', KStr ''specifications''}.
        \<exists>req err. Failure req err \<in> set ?evs \<and> meta_data_key req = Some k \<and>
          r k = Some (PDict [KStr ''error'' \<mapsto> PStr err, KStr ''url'' \<mapsto> PStr (url req)])"
    unfolding P by blast
  from r(2) have "r (KStr ''price'') = Some (PDict [KStr ''error'' \<mapsto> PStr ''DNS lookup failed'',
                                      KStr ''url'' \<mapsto> PStr ''http://x/alto/price''])"
    by (auto simp: rq_price_def rq_specs_def)
  moreover from r(2) have "r (KStr ''specifications'') = Some (PDict [KStr ''error'' \<mapsto> PStr ''timeout'',
                                      KStr ''url'' \<mapsto> PStr ''http://x/alto/specs''])"
    by (auto simp: rq_price_def rq_specs_def)
  ultimately show ?thesis using r(1) by blast
qed

text \<open>
  Claim C7 as stated covers every car and every failure of a sub-task. A car without
  tabs has no sub-task that succeeds, and emits nothing. When the fetch of the only tab
  succeeds and its extractor raises, nothing catches the exception and the errback is
  not called: the key stays pending and no record is emitted.
\<close>

theorem C7_counterexample:
  "emitted (schedule plain (first_page ex_base []) (discovery_first 0 [])) = []
   \<and> yielded (schedule plain (first_page ex_base tabs_price) (replicate 1 Advance)) = [rq_price]
   \<and> emitted (schedule plain (first_page ex_base tabs_price)
        (discovery_first 1 [crash rq_price TypeError])) = []
   \<and> fst (fst (schedule plain (first_page ex_base tabs_price)
        (discovery_first 1 [crash rq_price TypeError]))) pending_key
       = Some (PSet {KStr ''price''})
   \<and> fst (fst (schedule plain (first_page ex_base tabs_price)
        (discovery_first 1 [crash rq_price TypeError]))) (KStr ''price'') = Some PNone"
proof -
  have 1: "emitted (schedule plain (first_page ex_base []) (discovery_first 0 [])) = []"
    by (simp add: emitted_def discovery_first_def)
  have 2: "yielded (schedule plain (first_page ex_base tabs_price) (replicate 1 Advance)) = [rq_price]"
    by (simp add: spider_defs sample_defs)
  have s: "schedule plain (first_page ex_base tabs_price) (discovery_first 1 [crash rq_price TypeError])
      = (((new_car_data (PDict ex_base))(pending_key \<mapsto> PSet {KStr ''price''}), []),
         [\<lparr>requests = [rq_price], items = [], logged = [], raised = None\<rparr>,
          \<lparr>requests = [], items = [], logged = [], raised = Some TypeError\<rparr>])"
    by (simp add: spider_defs sample_defs)
  have 3: "emitted (schedule plain (first_page ex_base tabs_price)
        (discovery_first 1 [crash rq_price TypeError])) = []"
    unfolding s by (simp add: emitted_def)
  have 4: "fst (fst (schedule plain (first_page ex_base tabs_price)
        (discovery_first 1 [crash rq_price TypeError]))) pending_key
       = Some (PSet {KStr ''price''})"
    unfolding s by simp
  have 5: "fst (fst (schedule plain (first_page ex_base tabs_price)
        (discovery_first 1 [crash rq_price TypeError]))) (KStr ''price'') = Some PNone"
    unfolding s by (simp add: new_car_data_def)
  from 1 2 3 4 5 show ?thesis by blast
qed

subsection \<open>C8\<close>

text \<open>
  Claim C8, as the code has it. A car whose discovery fails never emits a record and
  never enters assembly. When the first fetch fails, \<open>handle_error\<close> yields no item and
  no request and leaves \<open>car_data\<close> untouched. When the first page enumerates no tab to
  follow and the callback ends without an exception, \<open>parse_first_page\<close> yields no item
  and no request, leaves \<open>car_data\<close> untouched and logs nothing: no report is produced
  for that car.
\<close>

theorem C8_failed_discovery_emits_nothing:
  assumes "start_request esc car = Inr (cd, req)"
  shows "fst (deliver esc cd (Failure req err)) = cd
     \<and> items (snd (deliver esc cd (Failure req err))) = []
     \<and> requests (snd (deliver esc cd (Failure req err))) = []
     \<and> (requests (snd (deliver esc cd
            (Response \<lparr>resp_request = req, tabs = tbs, extracted = x\<rparr>))) = []
        \<and> raised (snd (deliver esc cd
            (Response \<lparr>resp_request = req, tabs = tbs, extracted = x\<rparr>))) = None
          \<longrightarrow> deliver esc cd (Response \<lparr>resp_request = req, tabs = tbs, extracted = x\<rparr>)
              = (cd, \<lparr>requests = [], items = [], logged = [], raised = None\<rparr>))"
proof -
  note s = start_request_shape[OF assms]
  from s(4) obtain b where b: "car = PDict b" by blast
  have f: "deliver esc cd (Failure req err) = (cd, nothing\<lparr>raised := Some KeyError\<rparr>)"
    using s(3) by (simp add: handle_error_def)
  have r: "deliver esc cd (Response \<lparr>resp_request = req, tabs = tbs, extracted = x\<rparr>)
      = discover esc b tbs"
    using s(1,2) b by (simp add: discover_def)
  have "requests (snd (discover esc b tbs)) = [] \<and> raised (snd (discover esc b tbs)) = None \<longrightarrow>
      discover esc b tbs = (cd, \<lparr>requests = [], items = [], logged = [], raised = None\<rparr>)"
  proof
    assume e: "requests (snd (discover esc b tbs)) = [] \<and> raised (snd (discover esc b tbs)) = None"
    have "pending_of (fst (discover esc b tbs)) = {}"
      using discover_pending_eq[of esc b tbs] e by (simp add: req_keys_Nil)
    then have "fst (discover esc b tbs) k = cd k" for k
      unfolding s(1) b by (subst discover_pending) (simp add: new_car_data_def)
    then have 1: "fst (discover esc b tbs) = cd"
      by (rule ext)
    have 2: "snd (discover esc b tbs) = \<lparr>requests = [], items = [], logged = [], raised = None\<rparr>"
      using e discover_quiet[of esc b tbs] by (cases "snd (discover esc b tbs)") simp
    show "discover esc b tbs = (cd, \<lparr>requests = [], items = [], logged = [], raised = None\<rparr>)"
      by (rule prod_eqI) (simp_all only: 1 2 fst_conv snd_conv)
  qed
  then show ?thesis
    unfolding r f by (simp add: nothing_def)
qed

text \<open>The sample car: its first fetch fails, or its first page shows only skipped anchors.\<close>

theorem C8_failed_discovery_emits_nothing_witness:
  "start_request plain (PDict ex_base) = Inr (new_car_data (PDict ex_base), rq_first)
   \<and> fst (deliver plain (new_car_data (PDict ex_base)) (Failure rq_first ''timeout''))
       = new_car_data (PDict ex_base)
   \<and> items (snd (deliver plain (new_car_data (PDict ex_base)) (Failure rq_first ''timeout''))) = []
   \<and> requests (snd (deliver plain (new_car_data (PDict ex_base))
        (Response \<lparr>resp_request = rq_first, tabs = [(KStr ''compare'', ''http://x/alto/compare'')],
                   extracted = Inr PNone\<rparr>))) = []
   \<and> raised (snd (deliver plain (new_car_data (PDict ex_base))
        (Response \<lparr>resp_request = rq_first, tabs = [(KStr ''compare'', ''http://x/alto/compare'')],
                   extracted = Inr PNone\<rparr>))) = None
   \<and> deliver plain (new_car_data (PDict ex_base))
        (Response \<lparr>resp_request = rq_first, tabs = [(KStr ''compare'', ''http://x/alto/compare'')],
                   extracted = Inr PNone\<rparr>)
       = (new_car_data (PDict ex_base), \<lparr>requests = [], items = [], logged = [], raised = None\<rparr>)"
proof -
  have h: "start_request plain (PDict ex_base) = Inr (new_car_data (PDict ex_base), rq_first)"
    by (rule sample_start_request)
  have e: "requests (snd (deliver plain (new_car_data (PDict ex_base))
        (Response \<lparr>resp_request = rq_first, tabs = [(KStr ''compare'', ''http://x/alto/compare'')],
                   extracted = Inr PNone\<rparr>))) = []"
    by (simp add: rq_first_def nothing_def)
  have e': "raised (snd (deliver plain (new_car_data (PDict ex_base))
        (Response \<lparr>resp_request = rq_first, tabs = [(KStr ''compare'', ''http://x/alto/compare'')],
                   extracted = Inr PNone\<rparr>))) = None"
    by (simp add: rq_first_def nothing_def)
  show ?thesis
    using h e e'
      C8_failed_discovery_emits_nothing[OF h, of "''timeout''"
        "[(KStr ''compare'', ''http://x/alto/compare'')]" "Inr PNone"]
    by blast
qed

text \<open>
  Claim C8 as stated has one discovery-failure report for such a car. The first page of
  the sample car with only the skipped anchors \<open>model\<close> and \<open>compare\<close> is handled
  without a log line and without an exception.
\<close>

theorem C8_counterexample:
  "logged (snd (deliver plain (new_car_data (PDict ex_base))
      (Response \<lparr>resp_request = rq_first,
                 tabs = [(KStr ''model'', ''http://x/alto/model''),
                         (KStr ''compare'', ''http://x/alto/compare'')],
                 extracted = Inr PNone\<rparr>))) = []
   \<and> raised (snd (deliver plain (new_car_data (PDict ex_base))
      (Response \<lparr>resp_request = rq_first,
                 tabs = [(KStr ''model'', ''http://x/alto/model''),
                         (KStr ''compare'', ''http://x/alto/compare'')],
                 extracted = Inr PNone\<rparr>))) = None
   \<and> items (snd (deliver plain (new_car_data (PDict ex_base))
      (Response \<lparr>resp_request = rq_first,
                 tabs = [(KStr ''model'', ''http://x/alto/model''),
                         (KStr ''compare'', ''http://x/alto/compare'')],
                 extracted = Inr PNone\<rparr>))) = []"
  by (simp add: rq_first_def nothing_def)

text \<open>
  When the first fetch fails, \<open>handle_error\<close> reads \<open>meta["data_key"]\<close>, which the first
  request does not carry: the errback ends with \<open>KeyError\<close> before its log line.
\<close>

lemma first_fetch_failure_raises:
  assumes "start_request esc car = Inr (cd, req)"
  shows "raised (snd (deliver esc cd (Failure req err))) = Some KeyError"
    and "logged (snd (deliver esc cd (Failure req err))) = []"
  using start_request_shape(3)[OF assms] by (simp_all add: handle_error_def nothing_def)

subsection \<open>C9\<close>




subsection \<open>C10\<close>



end
